theory Spec2Isabelle
  imports Main "HOL-Library.Word" "HOL-Library.Multiset"
begin

unbundle bit_operations_syntax

section \<open>Lane and warp primitives\<close>

subsection \<open>The byte predicate \<open>bitwize_zero\<close>\<close>

text \<open>
  A value of a trivially copyable type \<open>T\<close> is given by its object representation, the
  list of its \<open>sizeof(T)\<close> bytes. \<open>bitwize_zero\<close> overlays it with an array of
  \<open>int_sizeof_T\<close> ints inside a union whose constructor zeroes the array first, so the
  bytes of the last int that lie beyond \<open>sizeof(T)\<close> are zero.
\<close>

definition sizeof_int :: nat where
  "sizeof_int = 4"

definition int_sizeof_T :: "nat \<Rightarrow> nat" where
  "int_sizeof_T sizeof_T = (sizeof_T + sizeof_int - 1) div sizeof_int"

text \<open>The bytes of the union after \<open>arr{0}\<close> and \<open>Tunion.var = var\<close>.\<close>

definition Tunion_bytes :: "8 word list \<Rightarrow> 8 word list" where
  "Tunion_bytes var =
     var @ replicate (int_sizeof_T (length var) * sizeof_int - length var) 0"

text \<open>One 32-bit int read from four bytes (the device is little-endian).\<close>

definition word_of_bytes :: "8 word \<Rightarrow> 8 word \<Rightarrow> 8 word \<Rightarrow> 8 word \<Rightarrow> 32 word" where
  "word_of_bytes b0 b1 b2 b3 =
     ucast b0 OR push_bit 8 (ucast b1) OR push_bit 16 (ucast b2) OR push_bit 24 (ucast b3)"

definition Tunion_arr :: "8 word list \<Rightarrow> nat \<Rightarrow> 32 word" where
  "Tunion_arr var i =
     (let u = Tunion_bytes var
      in word_of_bytes (u ! (sizeof_int * i)) (u ! (sizeof_int * i + 1))
           (u ! (sizeof_int * i + 2)) (u ! (sizeof_int * i + 3)))"

text \<open>The loop \<open>for (i = 0; i < int_sizeof_T; ++i) zero |= Tunion.arr[i]\<close>.\<close>

function bitwize_zero_loop :: "8 word list \<Rightarrow> nat \<Rightarrow> 32 word \<Rightarrow> 32 word" where
  "bitwize_zero_loop var i zero =
     (if i < int_sizeof_T (length var)
      then bitwize_zero_loop var (i + 1) (zero OR Tunion_arr var i)
      else zero)"
  by pat_completeness auto
termination
  by (relation "measure (\<lambda>(var, i, zero). int_sizeof_T (length var) - i)") auto

declare bitwize_zero_loop.simps [simp del]

definition bitwize_zero :: "8 word list \<Rightarrow> bool" where
  "bitwize_zero var \<longleftrightarrow> bitwize_zero_loop var 0 0 = 0"

section \<open>Block reducer\<close>

text \<open>
  The threads of a block are numbered by \<open>threadId\<close>, from 0 up to \<open>numThreads\<close>; a
  per-thread variable is the list of its values in all threads of the block, and a
  statement that all threads execute in lockstep maps the list to a new one.
  \<open>WARP_SIZE\<close> and \<open>MAX_WARPS\<close> are declared outside this file; \<open>WARP_SIZE\<close> is a
  parameter here, and \<open>MAX_WARPS\<close> is the length of the shared array \<open>sd\<close>.
\<close>

text \<open>
  Modelled from the spec: the warp intrinsics behind \<open>shfl_sync\<close> and \<open>shfl_xor_sync\<close>.
  \<open>shuffle_indexed(v, s)\<close> returns the value of lane \<open>s\<close> of the caller's warp (the
  lane is taken modulo the warp size), \<open>shuffle_xor(v, m)\<close> the value of lane
  \<open>my_lane ^ m\<close>; for a lane that does not exist the caller's own value is returned,
  as the note at \<open>shfl_xor_sync\<close> says.
\<close>

definition shfl_sync :: "nat \<Rightarrow> 'a list \<Rightarrow> nat \<Rightarrow> nat \<Rightarrow> 'a" where
  "shfl_sync WARP_SIZE var threadId srcLane =
     (let src = (threadId div WARP_SIZE) * WARP_SIZE + srcLane mod WARP_SIZE
      in if src < length var then var ! src else var ! threadId)"

definition shfl_xor_sync :: "nat \<Rightarrow> 'a list \<Rightarrow> nat \<Rightarrow> nat \<Rightarrow> 'a" where
  "shfl_xor_sync WARP_SIZE var threadId laneMask =
     shfl_sync WARP_SIZE var threadId ((threadId mod WARP_SIZE) XOR laneMask)"

text \<open>
  One round of the loop over \<open>i\<close> when the block size is a multiple of the warp size:
  \<open>rhs = shfl_xor_sync(temp, i); Reducer{}(temp, rhs)\<close> in every thread.
\<close>

definition warp_step_xor :: "('a \<Rightarrow> 'a \<Rightarrow> 'a) \<Rightarrow> nat \<Rightarrow> nat \<Rightarrow> 'a list \<Rightarrow> 'a list" where
  "warp_step_xor comb WARP_SIZE i temp =
     map (\<lambda>threadId. comb (temp ! threadId) (shfl_xor_sync WARP_SIZE temp threadId i))
       [0..<length temp]"

text \<open>
  One round when it is not: \<open>srcLane = threadId ^ i; rhs = shfl_sync(temp, srcLane);
  if (srcLane < numThreads) Reducer{}(temp, rhs)\<close>.
\<close>

definition warp_step_guarded :: "('a \<Rightarrow> 'a \<Rightarrow> 'a) \<Rightarrow> nat \<Rightarrow> nat \<Rightarrow> 'a list \<Rightarrow> 'a list" where
  "warp_step_guarded comb WARP_SIZE i temp =
     map (\<lambda>threadId.
            let srcLane = threadId XOR i;
                rhs = shfl_sync WARP_SIZE temp threadId srcLane
            in if srcLane < length temp then comb (temp ! threadId) rhs else temp ! threadId)
       [0..<length temp]"

text \<open>
  The loop \<open>for (int i = 1; i < WARP_SIZE; i *= 2)\<close> around a round. In the source \<open>i\<close>
  starts at 1; the test \<open>0 < i\<close> makes the function total for every start.
\<close>

function warp_loop :: "(nat \<Rightarrow> 'a list \<Rightarrow> 'a list) \<Rightarrow> nat \<Rightarrow> nat \<Rightarrow> 'a list \<Rightarrow> 'a list" where
  "warp_loop step WARP_SIZE i temp =
     (if 0 < i \<and> i < WARP_SIZE then warp_loop step WARP_SIZE (i * 2) (step i temp) else temp)"
  by pat_completeness auto
termination
  by (relation "measure (\<lambda>(step, WARP_SIZE, i, temp). WARP_SIZE - i)") auto

declare warp_loop.simps [simp del]

text \<open>
  \<open>if (warpId == 0) sd[warpNum] = temp\<close> in every thread, with
  \<open>warpId = threadId % WARP_SIZE\<close> and \<open>warpNum = threadId / WARP_SIZE\<close>.
\<close>

definition write_sd :: "nat \<Rightarrow> 'a list \<Rightarrow> 'a list \<Rightarrow> 'a list" where
  "write_sd WARP_SIZE temp sd =
     fold (\<lambda>threadId sd.
             if threadId mod WARP_SIZE = 0 then sd[threadId div WARP_SIZE := temp ! threadId]
             else sd)
       [0..<length temp] sd"

text \<open>
  \<open>block_reduce\<close>: from the values \<open>val\<close> of the threads of a block to the values that
  the threads return. \<open>sd\<close> is the shared array as the block finds it. The threads of
  warp 0 are those with \<open>threadId < WARP_SIZE\<close>, and their \<open>warpId\<close> is their
  \<open>threadId\<close>.
\<close>

definition block_reduce ::
  "('a \<Rightarrow> 'a \<Rightarrow> 'a) \<Rightarrow> 'a \<Rightarrow> nat \<Rightarrow> 'a list \<Rightarrow> 'a list \<Rightarrow> 'a list" where
  "block_reduce comb identity WARP_SIZE sd val =
     (let numThreads = length val;
          temp = (if numThreads mod WARP_SIZE = 0
                  then warp_loop (warp_step_xor comb WARP_SIZE) WARP_SIZE 1 val
                  else warp_loop (warp_step_guarded comb WARP_SIZE) WARP_SIZE 1 val)
      in if numThreads > WARP_SIZE then
           let sd' = write_sd WARP_SIZE temp sd;
               warp0 = map (\<lambda>warpId. if warpId * WARP_SIZE < numThreads then sd' ! warpId
                                       else identity)
                         [0..<WARP_SIZE];
               warp0' = warp_loop (warp_step_xor comb WARP_SIZE) WARP_SIZE 1 warp0
           in warp0' @ drop WARP_SIZE temp
         else temp)"

text \<open>The combination of the values \<open>val[a]\<close>, ..., \<open>val[b - 1]\<close>, in this order.\<close>

definition combine_range :: "('a \<Rightarrow> 'a \<Rightarrow> 'a) \<Rightarrow> 'a \<Rightarrow> 'a list \<Rightarrow> nat \<Rightarrow> nat \<Rightarrow> 'a" where
  "combine_range comb identity val a b = foldr comb (take (b - a) (drop a val)) identity"

text \<open>
  What the rounds with \<open>i\<close> below a power of two have achieved: every existing thread
  whose \<open>threadId\<close> is a multiple of that power holds the combination of the values of
  the threads from itself up to the next multiple.
\<close>

definition warp_inv :: "('a \<Rightarrow> 'a \<Rightarrow> 'a) \<Rightarrow> 'a \<Rightarrow> 'a list \<Rightarrow> nat \<Rightarrow> 'a list \<Rightarrow> bool" where
  "warp_inv comb identity vals i temp \<longleftrightarrow>
     length temp = length vals \<and>
     (\<forall>t < length vals. i dvd t \<longrightarrow>
        temp ! t = combine_range comb identity vals t (min (t + i) (length vals)))"

section \<open>Grid reducer, tree variant\<close>

text \<open>
  Modelled from the spec: the intrinsic \<open>atomicInc(p, val)\<close>. It stores 0 if the old
  value has reached \<open>val\<close> and the old value plus one otherwise, and returns the old
  value. The result is the pair of the value returned and the value stored.
\<close>

definition atomicInc :: "nat \<Rightarrow> nat \<Rightarrow> nat \<times> nat" where
  "atomicInc old val = (old, if old \<ge> val then 0 else old + 1)"

text \<open>The value that thread 0 of a block gets from \<open>block_reduce\<close>.\<close>

definition block_aggregate :: "('a \<Rightarrow> 'a \<Rightarrow> 'a) \<Rightarrow> 'a \<Rightarrow> nat \<Rightarrow> 'a list \<Rightarrow> 'a list \<Rightarrow> 'a" where
  "block_aggregate comb identity WARP_SIZE sd val = block_reduce comb identity WARP_SIZE sd val ! 0"




text \<open>
  The device memory of one launch and the progress of its blocks. \<open>counter\<close> is
  \<open>device_count[0]\<close>; \<open>pc\<close> and \<open>lastBlock\<close> have one entry per block; \<open>slot\<close> lists the
  values written to \<open>tally_or_val_ptr.val_ptr[0]\<close>, which \<open>destroy\<close> does in the thread
  for which the grid reduction returns true.
\<close>

record 'a grid_state =
  device_mem :: "'a list"
  counter :: nat
  pc :: "nat list"
  lastBlock :: "bool list"
  slot :: "'a list"






section \<open>Grid reducer, atomic variant\<close>

text \<open>
  Modelled from the spec: the intrinsics \<open>atomicCAS(p, compare, val)\<close>, which stores
  \<open>val\<close> if the old value equals \<open>compare\<close>, and \<open>atomicAdd(p, val)\<close>; both return the
  old value. The result is the pair of the value returned and the value stored.
\<close>

definition atomicCAS :: "nat \<Rightarrow> nat \<Rightarrow> nat \<Rightarrow> nat \<times> nat" where
  "atomicCAS old compare val = (old, if old = compare then val else old)"

definition atomicAdd :: "nat \<Rightarrow> nat \<Rightarrow> nat \<times> nat" where
  "atomicAdd old val = (old, old + val)"

text \<open>
  What thread 0 of a block does to the accumulator \<open>*device_mem\<close> and sees of the
  counter, in the order in which it happens in the grid: the write of the identity by
  block \<open>b\<close>; the \<open>atomicAdd\<close> of block \<open>b\<close> that ends the initialization, with the
  value of the counter it returned; the end of the wait of block \<open>b\<close>, with the value of
  the counter it read; the atomic combine of block \<open>b\<close>, with the value the accumulator
  had before.
\<close>

datatype 'a atomic_event =
  InitWrite nat | InitDone nat nat | SpinExit nat nat | AtomicCombine nat 'a

text \<open>
  The state of a launch of the atomic variant: that of the tree variant, where
  \<open>device_mem\<close> has one element, and the events so far.
\<close>

record 'a atomic_state = "'a grid_state" +
  trace :: "'a atomic_event list"

text \<open>
  The steps of thread 0 of a block through \<open>setup_grid_reduce_atomic\<close> (in the copy
  constructor, when the kernel starts) and \<open>grid_reduce_atomic\<close> (in the destructor),
  one per access to shared device memory, when \<open>numBlocks\<close> is not 1:
  0, the \<open>atomicCAS\<close> on the counter, if the identity is not bitwise zero;
  1, in the block that won it, \<open>*device_mem = identity\<close>;
  2, after the fence, \<open>atomicAdd(device_count, 1)\<close>;
  3, after \<open>block_reduce\<close>, one reading of the counter in the loop that waits for it to
  reach 2, if the identity is not bitwise zero; the block stays at this step while the
  value read is less than 2;
  4, the atomic combine of the block's aggregate into \<open>*device_mem\<close>;
  5, after the fence, \<open>atomicInc\<close> with \<open>wrap_around = numBlocks + 1\<close>;
  6, in a block that is last, the reading of \<open>*device_mem\<close> and the return of true;
  7, done.
  \<open>repr\<close> gives the bytes of a value, for \<open>bitwize_zero\<close>.
\<close>

definition grid_reduce_atomic_step ::
  "('a \<Rightarrow> 'a \<Rightarrow> 'a) \<Rightarrow> 'a \<Rightarrow> ('a \<Rightarrow> 8 word list) \<Rightarrow> nat \<Rightarrow> (nat \<Rightarrow> nat \<Rightarrow> 'a list) \<Rightarrow>
   'a list list \<Rightarrow> nat \<Rightarrow> 'a atomic_state \<Rightarrow> 'a atomic_state" where
  "grid_reduce_atomic_step comb identity repr WARP_SIZE sd vals blockId st =
     (let numBlocks = length vals;
          wrap_around = numBlocks + 1;
          temp = block_aggregate comb identity WARP_SIZE (sd blockId 0) (vals ! blockId)
      in if blockId \<ge> numBlocks then st
         else if numBlocks = 1 then
           (if pc st ! blockId = 0 then
              st\<lparr>pc := (pc st)[blockId := 7],
                 lastBlock := (lastBlock st)[blockId := True],
                 slot := slot st @ [temp]\<rparr>
            else st)
         else if pc st ! blockId = 0 then
           (if \<not> bitwize_zero (repr identity) then
              (case atomicCAS (counter st) 0 1 of
                 (old_val, new_count) \<Rightarrow>
                   st\<lparr>counter := new_count,
                      pc := (pc st)[blockId := (if old_val = 0 then 1 else 3)]\<rparr>)
            else st\<lparr>pc := (pc st)[blockId := 3]\<rparr>)
         else if pc st ! blockId = 1 then
           st\<lparr>device_mem := (device_mem st)[0 := identity],
              pc := (pc st)[blockId := 2],
              trace := trace st @ [InitWrite blockId]\<rparr>
         else if pc st ! blockId = 2 then
           st\<lparr>counter := snd (atomicAdd (counter st) 1),
              pc := (pc st)[blockId := 3],
              trace := trace st @ [InitDone blockId (fst (atomicAdd (counter st) 1))]\<rparr>
         else if pc st ! blockId = 3 then
           (if \<not> bitwize_zero (repr identity) then
              (if counter st < 2 then st
               else st\<lparr>pc := (pc st)[blockId := 4],
                       trace := trace st @ [SpinExit blockId (counter st)]\<rparr>)
            else st\<lparr>pc := (pc st)[blockId := 4]\<rparr>)
         else if pc st ! blockId = 4 then
           st\<lparr>device_mem := (device_mem st)[0 := comb (device_mem st ! 0) temp],
              pc := (pc st)[blockId := 5],
              trace := trace st @ [AtomicCombine blockId (device_mem st ! 0)]\<rparr>
         else if pc st ! blockId = 5 then
           (case atomicInc (counter st) wrap_around of
              (old_count, new_count) \<Rightarrow>
                st\<lparr>counter := new_count,
                   lastBlock := (lastBlock st)[blockId := (old_count = wrap_around)],
                   pc := (pc st)[blockId := 6]\<rparr>)
         else if pc st ! blockId = 6 then
           (if lastBlock st ! blockId then
              st\<lparr>slot := slot st @ [device_mem st ! 0], pc := (pc st)[blockId := 7]\<rparr>
            else st\<lparr>pc := (pc st)[blockId := 7]\<rparr>)
         else st)"

text \<open>
  The start of a launch: the accumulator and the counter as the zeroed pool returned
  them; \<open>zero\<close> is the value of the accumulator's type whose bytes are all zero.
\<close>

definition atomic_init :: "'a \<Rightarrow> nat \<Rightarrow> 'a atomic_state" where
  "atomic_init zero numBlocks =
     \<lparr>device_mem = [zero], counter = 0, pc = replicate numBlocks 0,
      lastBlock = replicate numBlocks False, slot = [], trace = []\<rparr>"

definition grid_reduce_atomic_run ::
  "('a \<Rightarrow> 'a \<Rightarrow> 'a) \<Rightarrow> 'a \<Rightarrow> ('a \<Rightarrow> 8 word list) \<Rightarrow> nat \<Rightarrow> (nat \<Rightarrow> nat \<Rightarrow> 'a list) \<Rightarrow>
   'a list list \<Rightarrow> nat list \<Rightarrow> 'a atomic_state \<Rightarrow> 'a atomic_state" where
  "grid_reduce_atomic_run comb identity repr WARP_SIZE sd vals sched st =
     fold (grid_reduce_atomic_step comb identity repr WARP_SIZE sd vals) sched st"

definition atomic_done :: "nat \<Rightarrow> 'a atomic_state \<Rightarrow> bool" where
  "atomic_done numBlocks st \<longleftrightarrow> (\<forall>b < numBlocks. pc st ! b = 7)"

text \<open>
  Going through the events in order: \<open>cur\<close> is \<open>None\<close> while the accumulator still
  holds what the pool returned and the value it holds afterwards; \<open>spun\<close> lists the
  blocks whose wait has ended. An event is in order if the write of the identity is
  the first access to the accumulator, the initialization ends after that write by
  taking the counter from 1 to 2, a wait ends on a counter of at least 2, and a
  combine is done by a block whose wait has ended, on an accumulator that has been
  initialized. The result is \<open>None\<close> if some event is out of order.
\<close>

fun replay_event ::
  "('a \<Rightarrow> 'a \<Rightarrow> 'a) \<Rightarrow> 'a \<Rightarrow> (nat \<Rightarrow> 'a) \<Rightarrow> 'a atomic_event \<Rightarrow>
   ('a option \<times> nat list) option \<Rightarrow> ('a option \<times> nat list) option" where
  "replay_event comb identity agg e None = None"
| "replay_event comb identity agg (InitWrite b) (Some (cur, spun)) =
     (if cur = None then Some (Some identity, spun) else None)"
| "replay_event comb identity agg (InitDone b c) (Some (cur, spun)) =
     (if c = 1 \<and> cur \<noteq> None then Some (cur, spun) else None)"
| "replay_event comb identity agg (SpinExit b c) (Some (cur, spun)) =
     (if 2 \<le> c then Some (cur, b # spun) else None)"
| "replay_event comb identity agg (AtomicCombine b v) (Some (cur, spun)) =
     (if cur = Some v \<and> b \<in> set spun then Some (Some (comb v (agg b)), spun) else None)"

definition replay ::
  "('a \<Rightarrow> 'a \<Rightarrow> 'a) \<Rightarrow> 'a \<Rightarrow> (nat \<Rightarrow> 'a) \<Rightarrow> 'a atomic_event list \<Rightarrow>
   ('a option \<times> nat list) option" where
  "replay comb identity agg es = fold (replay_event comb identity agg) es (Some (None, []))"



text \<open>The bytes of a 32-bit integer, lowest first.\<close>

definition int32_bytes :: "int \<Rightarrow> 8 word list" where
  "int32_bytes x = map (\<lambda>i. ucast (drop_bit (8 * i) (word_of_int x :: 32 word))) [0..<4]"

text \<open>
  What holds at every moment of a launch of more than one block whose identity is
  bitwise zero: no block is in the initialization, the counter is the number of blocks
  that have passed the increment, no block is last and the slot has not been written.
\<close>

definition atomic_zero_inv :: "'a list list \<Rightarrow> 'a atomic_state \<Rightarrow> bool" where
  "atomic_zero_inv vals st \<longleftrightarrow>
     length (pc st) = length vals \<and>
     (\<forall>b < length vals. pc st ! b \<noteq> 1 \<and> pc st ! b \<noteq> 2) \<and>
     counter st = length (filter (\<lambda>p. 6 \<le> p) (pc st)) \<and>
     lastBlock st = replicate (length vals) False \<and>
     slot st = []"

text \<open>
  A launch of more than one block whose identity is not bitwise zero is at every
  moment in one of three phases. \<open>cur\<close> is what the accumulator holds according to the
  events so far, \<open>None\<close> while it is untouched.
  Before the initialization: no block has started, the counter is 0, the accumulator is
  untouched.
\<close>

definition atomic_phase_before :: "'a list list \<Rightarrow> 'a atomic_state \<Rightarrow> 'a option \<Rightarrow> bool" where
  "atomic_phase_before vals st cur \<longleftrightarrow>
     counter st = 0 \<and> cur = None \<and> (\<forall>b < length vals. pc st ! b = 0)"

text \<open>
  During the initialization: one block \<open>w\<close> has won the \<open>atomicCAS\<close> and is about to
  write the identity or about to add 1 to the counter, the counter is 1, and every
  other block has not started or waits.
\<close>

definition atomic_phase_init :: "'a list list \<Rightarrow> 'a atomic_state \<Rightarrow> 'a option \<Rightarrow> nat \<Rightarrow> bool" where
  "atomic_phase_init vals st cur w \<longleftrightarrow>
     counter st = 1 \<and> w < length vals \<and>
     (pc st ! w = 1 \<and> cur = None \<or> pc st ! w = 2 \<and> cur = Some (device_mem st ! 0)) \<and>
     (\<forall>b < length vals. b \<noteq> w \<longrightarrow> pc st ! b = 0 \<or> pc st ! b = 3)"

text \<open>
  After the initialization: no block is in it, the accumulator holds what the events
  say, and the counter is 2 plus the number of blocks that have passed the increment,
  or 0 again after the last of them.
\<close>

definition atomic_phase_after :: "'a list list \<Rightarrow> 'a atomic_state \<Rightarrow> 'a option \<Rightarrow> bool" where
  "atomic_phase_after vals st cur \<longleftrightarrow>
     (\<forall>b < length vals. pc st ! b = 0 \<or> 3 \<le> pc st ! b) \<and>
     cur = Some (device_mem st ! 0) \<and>
     counter st =
       (if length (filter (\<lambda>p. 6 \<le> p) (pc st)) = length vals then 0
        else 2 + length (filter (\<lambda>p. 6 \<le> p) (pc st)))"

text \<open>
  What holds at every moment of such a launch: the events so far are in order, every
  block that has left the wait is among the blocks \<open>spun\<close>, and the launch is in one of
  the three phases.
\<close>

definition atomic_inv ::
  "('a \<Rightarrow> 'a \<Rightarrow> 'a) \<Rightarrow> 'a \<Rightarrow> nat \<Rightarrow> (nat \<Rightarrow> nat \<Rightarrow> 'a list) \<Rightarrow> 'a list list \<Rightarrow>
   'a atomic_state \<Rightarrow> bool" where
  "atomic_inv comb identity WARP_SIZE sd vals st \<longleftrightarrow>
     length (pc st) = length vals \<and> 0 < length (device_mem st) \<and>
     (\<exists>cur spun.
        replay comb identity
          (\<lambda>b. block_aggregate comb identity WARP_SIZE (sd b 0) (vals ! b)) (trace st)
          = Some (cur, spun) \<and>
        (\<forall>b < length vals. 4 \<le> pc st ! b \<longrightarrow> b \<in> set spun) \<and>
        (atomic_phase_before vals st cur \<or> (\<exists>w. atomic_phase_init vals st cur w) \<or>
         atomic_phase_after vals st cur))"

text \<open>
  What holds in addition at every moment of such a launch: a block is last only if
  all blocks have passed the increment, and then exactly one is; the slot has been
  written, once, only by a last block that is done.
\<close>

definition atomic_last_inv :: "'a list list \<Rightarrow> 'a atomic_state \<Rightarrow> bool" where
  "atomic_last_inv vals st \<longleftrightarrow>
     length (lastBlock st) = length vals \<and>
     (\<forall>b < length vals. lastBlock st ! b \<longrightarrow>
        6 \<le> pc st ! b \<and> length (filter (\<lambda>p. 6 \<le> p) (pc st)) = length vals) \<and>
     (length (filter (\<lambda>p. 6 \<le> p) (pc st)) = length vals \<longrightarrow>
        (\<exists>b < length vals. lastBlock st ! b \<and>
           (\<forall>b' < length vals. lastBlock st ! b' \<longrightarrow> b' = b))) \<and>
     (\<forall>b < length vals. lastBlock st ! b \<and> pc st ! b = 7 \<longrightarrow> length (slot st) = 1) \<and>
     ((\<forall>b < length vals. \<not> (lastBlock st ! b \<and> pc st ! b = 7)) \<longrightarrow> slot st = [])"

section \<open>Pinned tally\<close>

text \<open>
  \<open>PinnedTally\<close> is a singly linked list of stream nodes, each with a singly linked list
  of value nodes in pinned memory. A linked list is modelled by the list of its nodes, a
  pointer into it by the suffix that starts at the node pointed to, and \<open>nullptr\<close> by the
  empty list. A node keeps the address the pinned pool returned for it, so that slots can
  be told apart.
\<close>

record 'a Node =
  node_addr :: nat
  node_value :: 'a

record 'a StreamNode =
  stream :: nat
  node_list :: "'a Node list"

type_synonym 'a PinnedTally = "'a StreamNode list"

text \<open>\<open>StreamNodeIterator\<close>: the pair \<open>(m_sn, m_n)\<close>.\<close>

type_synonym 'a StreamNodeIterator = "'a StreamNode list \<times> 'a Node list"

definition tally_begin :: "'a PinnedTally \<Rightarrow> 'a StreamNodeIterator" where
  "tally_begin stream_list =
     (stream_list, case stream_list of [] \<Rightarrow> [] | sn # _ \<Rightarrow> node_list sn)"

definition tally_end :: "'a StreamNodeIterator" where
  "tally_end = ([], [])"

text \<open>\<open>operator==\<close> compares the node pointers \<open>m_n\<close> only.\<close>

fun iter_eq :: "'a StreamNodeIterator \<Rightarrow> 'a StreamNodeIterator \<Rightarrow> bool" where
  "iter_eq (_, []) (_, []) = True"
| "iter_eq (_, n # _) (_, n' # _) = (node_addr n = node_addr n')"
| "iter_eq _ _ = False"

text \<open>
  \<open>operator++\<close>. It reads \<open>m_n->next\<close> and, at the end of a node list, \<open>m_sn->next\<close>;
  on a null pointer that read is an error, the value \<open>None\<close>.
\<close>

fun iter_inc :: "'a StreamNodeIterator \<Rightarrow> 'a StreamNodeIterator option" where
  "iter_inc (m_sn, []) = None"
| "iter_inc (m_sn, _ # n' # ns) = Some (m_sn, n' # ns)"
| "iter_inc ([], [_]) = None"
| "iter_inc (_ # sn' # sns, [_]) = Some (sn' # sns, node_list sn')"
| "iter_inc ([_], [_]) = Some ([], [])"

fun iter_deref :: "'a StreamNodeIterator \<Rightarrow> 'a Node option" where
  "iter_deref (_, []) = None"
| "iter_deref (_, n # _) = Some n"

text \<open>The loop \<open>for ( ; n != end; ++n) body(*n)\<close> over the values of a tally.\<close>

function for_each_value ::
  "('a Node \<Rightarrow> 's \<Rightarrow> 's) \<Rightarrow> 'a StreamNodeIterator \<Rightarrow> 's \<Rightarrow> 's option" where
  "for_each_value body n s =
     (if iter_eq n tally_end then Some s
      else case iter_deref n of
          None \<Rightarrow> None
        | Some nd \<Rightarrow>
            (case iter_inc n of
               None \<Rightarrow> None
             | Some n' \<Rightarrow> for_each_value body n' (body nd s)))"
  by pat_completeness auto
termination
proof (relation "measures [\<lambda>(body, n, s). length (fst n), \<lambda>(body, n, s). length (snd n)]")
  fix body :: "'a Node \<Rightarrow> 's \<Rightarrow> 's" and n :: "'a StreamNodeIterator" and s nd n'
  assume "iter_inc n = Some n'"
  then show "((body, n', body nd s), (body, n, s)) \<in>
      measures [\<lambda>(body, n, s). length (fst n), \<lambda>(body, n, s). length (snd n)]"
    by (induction n rule: iter_inc.induct) auto
qed simp

declare for_each_value.simps [simp del]

text \<open>
  \<open>new_value\<close>: the \<open>while\<close> loop looks for the first stream node of the stream; the new
  value node \<open>n\<close> (what the pinned pool's \<open>malloc\<close> returned, contents unspecified) is
  put in front of that node's list. \<open>add_to_stream\<close> is \<open>None\<close> when the search ends at
  \<open>nullptr\<close>; then a new stream node is put in front of the stream list.
  The result is the pointer \<open>&n->value\<close> and the new stream list.
\<close>

fun add_to_stream :: "nat \<Rightarrow> 'a Node \<Rightarrow> 'a StreamNode list \<Rightarrow> 'a StreamNode list option" where
  "add_to_stream s n [] = None"
| "add_to_stream s n (sn # rest) =
     (if stream sn = s then Some (sn\<lparr>node_list := n # node_list sn\<rparr> # rest)
      else map_option ((#) sn) (add_to_stream s n rest))"

definition new_value :: "nat \<Rightarrow> 'a Node \<Rightarrow> 'a PinnedTally \<Rightarrow> nat \<times> 'a PinnedTally" where
  "new_value s n stream_list =
     (case add_to_stream s n stream_list of
        Some stream_list' \<Rightarrow> (node_addr n, stream_list')
      | None \<Rightarrow> (node_addr n, \<lparr>stream = s, node_list = [n]\<rparr> # stream_list))"

text \<open>
  \<open>free_list\<close> gives every value node of every stream back to the pinned pool and drops
  the stream nodes. The second component lists the addresses freed, in order.
\<close>

fun free_list :: "'a PinnedTally \<Rightarrow> nat list \<Rightarrow> 'a PinnedTally \<times> nat list" where
  "free_list [] freed = ([], freed)"
| "free_list (s # rest) freed = free_list rest (freed @ map node_addr (node_list s))"

text \<open>The operations on a tally after its constructor, which sets \<open>stream_list\<close> to null.\<close>

datatype 'a tally_op = NewValue nat "'a Node" | FreeList

fun tally_apply :: "'a tally_op \<Rightarrow> 'a PinnedTally \<Rightarrow> 'a PinnedTally" where
  "tally_apply (NewValue s n) t = snd (new_value s n t)"
| "tally_apply FreeList t = fst (free_list t [])"

text \<open>The value nodes that are allocated and not yet freed, as the calls determine them.\<close>

fun allocated_step :: "'a tally_op \<Rightarrow> 'a Node multiset \<Rightarrow> 'a Node multiset" where
  "allocated_step (NewValue s n) A = add_mset n A"
| "allocated_step FreeList A = {#}"

definition tally_inv :: "'a PinnedTally \<Rightarrow> bool" where
  "tally_inv t \<longleftrightarrow> distinct (map stream t) \<and> (\<forall>sn \<in> set t. node_list sn \<noteq> [])"

section \<open>Reduction handle on the host\<close>

text \<open>
  \<open>Reduce_Data\<close>. The union \<open>tally_or_val_ptr\<close> holds one pointer, read as a pointer to
  the \<open>PinnedTally\<close> before the setup for the device and as a pointer to a value slot
  after it. Pointers are addresses, \<open>None\<close> is \<open>nullptr\<close>.
\<close>

record 'a Reduce_Data =
  data_value :: 'a
  tally_or_val_ptr :: "nat option"
  device_count :: "nat option"
  device :: "nat option"
  own_device_ptr :: bool

text \<open>\<open>Reduce\<close>; the member \<open>info\<close> is an empty struct.\<close>

record 'a Reduce =
  parent :: "nat option"
  val :: "'a Reduce_Data"

text \<open>
  The host's memory: the \<open>Reduce\<close> objects and the heap-allocated tallies by address,
  and what the handle did to its collaborators: the streams passed to \<open>synchronize\<close>, the
  value nodes given back to the pinned pool, the pointers given back to the device pools.
\<close>

record 'a host =
  objs :: "nat \<rightharpoonup> 'a Reduce"
  tallies :: "nat \<rightharpoonup> 'a PinnedTally"
  synced :: "nat list"
  pinned_freed :: "nat list"
  device_freed :: "nat option list"

text \<open>
  What the execution engine and the memory pools answer during one copy of a handle:
  \<open>setupReducers()\<close>, \<open>currentGridDim()\<close>, \<open>currentStream()\<close> and the results of the
  three \<open>malloc\<close> calls.
\<close>

record 'a launch_env =
  setupReducers :: bool
  currentGridDim :: "nat \<times> nat \<times> nat"
  currentStream :: nat
  device_malloc :: nat
  zeroed_malloc :: nat
  pinned_malloc :: "'a Node"

definition Reduce_Data_init :: "'a \<Rightarrow> nat \<Rightarrow> 'a Reduce_Data" where
  "Reduce_Data_init initValue new_tally =
     \<lparr>data_value = initValue, tally_or_val_ptr = Some new_tally, device_count = None,
      device = None, own_device_ptr = False\<rparr>"

definition Reduce_Data_copy :: "'a \<Rightarrow> 'a Reduce_Data \<Rightarrow> 'a Reduce_Data" where
  "Reduce_Data_copy identity other =
     \<lparr>data_value = identity, tally_or_val_ptr = tally_or_val_ptr other,
      device_count = device_count other, device = device other, own_device_ptr = False\<rparr>"

text \<open>
  \<open>explicit Reduce(T init_val)\<close> for the object at address \<open>this\<close>; \<open>new_tally\<close> is the
  address of the \<open>new PinnedTally<T>\<close>.
\<close>

definition Reduce_init :: "nat \<Rightarrow> nat \<Rightarrow> 'a \<Rightarrow> 'a host \<Rightarrow> 'a host" where
  "Reduce_init this new_tally init_val h =
     h\<lparr>objs := (objs h)(this \<mapsto> \<lparr>parent = Some this, val = Reduce_Data_init init_val new_tally\<rparr>),
       tallies := (tallies h)(new_tally \<mapsto> [])\<rparr>"

text \<open>\<open>setupForDevice\<close>, host branch. The result is \<open>act\<close>, the data and the memory.\<close>

definition setupForDevice_host ::
  "'a launch_env \<Rightarrow> 'a Reduce_Data \<Rightarrow> 'a host \<Rightarrow> (bool \<times> 'a Reduce_Data \<times> 'a host) option" where
  "setupForDevice_host env d h =
     (if device d = None \<and> setupReducers env then
        (case tally_or_val_ptr d of
           None \<Rightarrow> None
         | Some lp \<Rightarrow>
             (case tallies h lp of
                None \<Rightarrow> None
              | Some t \<Rightarrow>
                  (case new_value (currentStream env) (pinned_malloc env) t of
                     (vp, t') \<Rightarrow>
                       Some (True,
                         d\<lparr>device := Some (device_malloc env),
                           device_count := Some (zeroed_malloc env),
                           tally_or_val_ptr := Some vp,
                           own_device_ptr := True\<rparr>,
                         h\<lparr>tallies := (tallies h)(lp \<mapsto> t')\<rparr>))))
      else Some (False, d, h))"

text \<open>The copy constructor, host branch: the object at \<open>this\<close> becomes a copy of \<open>other\<close>.\<close>

definition Reduce_copy_host ::
  "'a \<Rightarrow> 'a launch_env \<Rightarrow> nat \<Rightarrow> nat \<Rightarrow> 'a host \<Rightarrow> 'a host option" where
  "Reduce_copy_host identity env this other h =
     (case objs h other of
        None \<Rightarrow> None
      | Some ob \<Rightarrow>
          (case parent ob of
             None \<Rightarrow>
               Some (h\<lparr>objs := (objs h)(this \<mapsto>
                        \<lparr>parent = None, val = Reduce_Data_copy identity (val ob)\<rparr>)\<rparr>)
           | Some p \<Rightarrow>
               (case setupForDevice_host env (Reduce_Data_copy identity (val ob)) h of
                  None \<Rightarrow> None
                | Some (act, d, h') \<Rightarrow>
                    Some (h'\<lparr>objs := (objs h')(this \<mapsto>
                            \<lparr>parent = (if act then None else Some p), val = d\<rparr>)\<rparr>))))"

text \<open>\<open>reduce(rhsVal)\<close>: \<open>Reducer{}(val.value, rhsVal)\<close> with the reducer's combine \<open>comb\<close>.\<close>

definition Reduce_reduce :: "('a \<Rightarrow> 'a \<Rightarrow> 'a) \<Rightarrow> nat \<Rightarrow> 'a \<Rightarrow> 'a host \<Rightarrow> 'a host option" where
  "Reduce_reduce comb this rhsVal h =
     (case objs h this of
        None \<Rightarrow> None
      | Some r \<Rightarrow>
          Some (h\<lparr>objs := (objs h)(this \<mapsto>
                  r\<lparr>val := (val r)\<lparr>data_value := comb (data_value (val r)) rhsVal\<rparr>\<rparr>)\<rparr>))"

text \<open>
  The destructor, host branch: the root deletes its tally (\<open>destroy\<close>), a copy with a
  parent reduces its value into the parent, a copy without parent tears down what it
  owns of the device setup. The object is gone afterwards.
\<close>

definition Reduce_dtor_host :: "('a \<Rightarrow> 'a \<Rightarrow> 'a) \<Rightarrow> nat \<Rightarrow> 'a host \<Rightarrow> 'a host option" where
  "Reduce_dtor_host comb this h =
     (case objs h this of
        None \<Rightarrow> None
      | Some r \<Rightarrow>
          if parent r = Some this then
            (case tally_or_val_ptr (val r) of
               None \<Rightarrow> Some (h\<lparr>objs := (objs h)(this := None)\<rparr>)
             | Some lp \<Rightarrow>
                 (case tallies h lp of
                    None \<Rightarrow> None
                  | Some t \<Rightarrow>
                      Some (h\<lparr>objs := (objs h)(this := None),
                              tallies := (tallies h)(lp := None),
                              pinned_freed := snd (free_list t (pinned_freed h))\<rparr>)))
          else
            (case parent r of
               Some p \<Rightarrow>
                 (case Reduce_reduce comb p (data_value (val r)) h of
                    None \<Rightarrow> None
                  | Some h' \<Rightarrow> Some (h'\<lparr>objs := (objs h')(this := None)\<rparr>))
             | None \<Rightarrow>
                 if own_device_ptr (val r) then
                   Some (h\<lparr>objs := (objs h)(this := None),
                           device_freed := device_freed h
                             @ [device (val r), device_count (val r)]\<rparr>)
                 else Some (h\<lparr>objs := (objs h)(this := None)\<rparr>)))"

text \<open>\<open>deviceToHost\<close>: the loop over the stream iterator that synchronizes each stream.\<close>

fun deviceToHost :: "'a StreamNode list \<Rightarrow> nat list \<Rightarrow> nat list" where
  "deviceToHost [] log = log"
| "deviceToHost (sn # m_sn) log = deviceToHost m_sn (log @ [stream sn])"

text \<open>\<open>operator T()\<close>: the value returned and the memory afterwards.\<close>

definition operator_T :: "('a \<Rightarrow> 'a \<Rightarrow> 'a) \<Rightarrow> nat \<Rightarrow> 'a host \<Rightarrow> ('a \<times> 'a host) option" where
  "operator_T comb this h =
     (case objs h this of
        None \<Rightarrow> None
      | Some r \<Rightarrow>
          (case tally_or_val_ptr (val r) of
             None \<Rightarrow> None
           | Some lp \<Rightarrow>
               (case tallies h lp of
                  None \<Rightarrow> None
                | Some t \<Rightarrow>
                    if \<not> iter_eq (tally_begin t) tally_end then
                      (case for_each_value (\<lambda>nd v. comb v (node_value nd)) (tally_begin t)
                              (data_value (val r)) of
                         None \<Rightarrow> None
                       | Some v \<Rightarrow>
                           Some (v,
                             h\<lparr>objs := (objs h)(this \<mapsto> r\<lparr>val := (val r)\<lparr>data_value := v\<rparr>\<rparr>),
                               tallies := (tallies h)(lp \<mapsto> fst (free_list t (pinned_freed h))),
                               synced := deviceToHost t (synced h),
                               pinned_freed := snd (free_list t (pinned_freed h))\<rparr>))
                    else Some (data_value (val r), h))))"

text \<open>\<open>get()\<close> is an alias of \<open>operator T()\<close>.\<close>

definition get :: "('a \<Rightarrow> 'a \<Rightarrow> 'a) \<Rightarrow> nat \<Rightarrow> 'a host \<Rightarrow> ('a \<times> 'a host) option" where
  "get comb this h = operator_T comb this h"

text \<open>\<open>k\<close> reads in a row: the values returned and the memory after the last one.\<close>

fun reads :: "('a \<Rightarrow> 'a \<Rightarrow> 'a) \<Rightarrow> nat \<Rightarrow> nat \<Rightarrow> 'a host \<Rightarrow> ('a list \<times> 'a host) option" where
  "reads comb this 0 h = Some ([], h)"
| "reads comb this (Suc k) h =
     (case operator_T comb this h of
        None \<Rightarrow> None
      | Some (v, h') \<Rightarrow>
          (case reads comb this k h' of
             None \<Rightarrow> None
           | Some (vs, h'') \<Rightarrow> Some (v # vs, h'')))"

text \<open>A sequence of operations on the handles of the host.\<close>

datatype 'a host_op =
    Construct nat nat 'a
  | Copy "'a launch_env" nat nat
  | Combine nat 'a
  | Destroy nat

fun host_apply :: "('a \<Rightarrow> 'a \<Rightarrow> 'a) \<Rightarrow> 'a \<Rightarrow> 'a host_op \<Rightarrow> 'a host \<Rightarrow> 'a host option" where
  "host_apply comb identity (Construct this new_tally init_val) h =
     Some (Reduce_init this new_tally init_val h)"
| "host_apply comb identity (Copy env this other) h = Reduce_copy_host identity env this other h"
| "host_apply comb identity (Combine this rhsVal) h = Reduce_reduce comb this rhsVal h"
| "host_apply comb identity (Destroy this) h = Reduce_dtor_host comb this h"

fun host_run :: "('a \<Rightarrow> 'a \<Rightarrow> 'a) \<Rightarrow> 'a \<Rightarrow> 'a host_op list \<Rightarrow> 'a host \<Rightarrow> 'a host option" where
  "host_run comb identity [] h = Some h"
| "host_run comb identity (opn # ops) h =
     (case host_apply comb identity opn h of
        None \<Rightarrow> None
      | Some h' \<Rightarrow> host_run comb identity ops h')"

definition value_of :: "nat \<Rightarrow> 'a host \<Rightarrow> 'a option" where
  "value_of this h = map_option (\<lambda>r. data_value (val r)) (objs h this)"

definition empty_host :: "'a host" where
  "empty_host = \<lparr>objs = Map.empty, tallies = Map.empty, synced = [], pinned_freed = [],
     device_freed = []\<rparr>"

definition parent_of :: "nat \<Rightarrow> 'a host \<Rightarrow> nat option option" where
  "parent_of this h = map_option parent (objs h this)"

text \<open>The answers of the collaborators while no kernel launch is pending.\<close>

definition no_launch :: "'a Node \<Rightarrow> 'a launch_env" where
  "no_launch n = \<lparr>setupReducers = False, currentGridDim = (1, 1, 1), currentStream = 0,
     device_malloc = 0, zeroed_malloc = 0, pinned_malloc = n\<rparr>"

section \<open>Histories that leave a handle unused\<close>

text \<open>
  The handle at \<open>this\<close> and the copies of it made on the host without a device setup
  are the objects whose parent pointer is \<open>this\<close>.
\<close>

definition in_family :: "nat \<Rightarrow> nat \<Rightarrow> 'a host \<Rightarrow> bool" where
  "in_family this x h \<longleftrightarrow> (case objs h x of None \<Rightarrow> False | Some c \<Rightarrow> parent c = Some this)"

text \<open>
  The parent pointer of the object at \<open>x\<close> is null or points to a live root, so the
  destructor may dereference it.
\<close>

definition valid_parent :: "nat \<Rightarrow> 'a host \<Rightarrow> bool" where
  "valid_parent x h \<longleftrightarrow>
     (case objs h x of
        None \<Rightarrow> False
      | Some c \<Rightarrow>
          (case parent c of
             None \<Rightarrow> True
           | Some p \<Rightarrow> (case objs h p of None \<Rightarrow> False | Some r \<Rightarrow> parent r = Some p)))"

text \<open>
  An operation that leaves the handle at \<open>this\<close> unused: a construction or a copy takes
  storage that holds no live object (and a new tally an address that holds no live
  tally); a copy of the handle, or of a host copy of it, is not made while a launch is
  being set up; no value is combined into the handle or into a host copy of it; the
  handle itself is not destroyed, and an object that is destroyed has a valid parent
  pointer. Other handles may be combined into, launched and destroyed.
\<close>

fun unused_op :: "nat \<Rightarrow> 'a host_op \<Rightarrow> 'a host \<Rightarrow> bool" where
  "unused_op this (Construct x new_tally init_val) h \<longleftrightarrow>
     objs h x = None \<and> tallies h new_tally = None"
| "unused_op this (Copy env x other) h \<longleftrightarrow>
     objs h x = None \<and> \<not> (setupReducers env \<and> in_family this other h)"
| "unused_op this (Combine x rhsVal) h \<longleftrightarrow> \<not> in_family this x h"
| "unused_op this (Destroy x) h \<longleftrightarrow> x \<noteq> this \<and> valid_parent x h"

text \<open>Every operation of the history succeeds and leaves the handle unused.\<close>

fun unused_run ::
  "('a \<Rightarrow> 'a \<Rightarrow> 'a) \<Rightarrow> 'a \<Rightarrow> nat \<Rightarrow> 'a host_op list \<Rightarrow> 'a host \<Rightarrow> bool" where
  "unused_run comb identity this [] h \<longleftrightarrow> True"
| "unused_run comb identity this (opn # ops) h \<longleftrightarrow>
     unused_op this opn h \<and>
     (case host_apply comb identity opn h of
        None \<Rightarrow> False
      | Some h' \<Rightarrow> unused_run comb identity this ops h')"

text \<open>
  What such a history keeps true of the memory: the handle is a root that still holds
  its seed, its tally is empty, its host copies hold the identity, and an object with
  a parent that refers to the handle's tally is the handle or a host copy of it.
\<close>

definition unused_inv :: "'a \<Rightarrow> nat \<Rightarrow> nat \<Rightarrow> 'a \<Rightarrow> 'a host \<Rightarrow> bool" where
  "unused_inv identity this lp seed h \<longleftrightarrow>
     (\<exists>r. objs h this = Some r \<and> parent r = Some this \<and> data_value (val r) = seed \<and>
        tally_or_val_ptr (val r) = Some lp) \<and>
     tallies h lp = Some [] \<and>
     (\<forall>x c. objs h x = Some c \<and> x \<noteq> this \<and> parent c = Some this \<longrightarrow>
        data_value (val c) = identity) \<and>
     (\<forall>x c. objs h x = Some c \<and> parent c \<noteq> None \<and> tally_or_val_ptr (val c) = Some lp \<longrightarrow>
        parent c = Some this)"

section \<open>A launch seen from the host\<close>



section \<open>Properties of the byte predicate\<close>

lemma ucast_push_zero:
  assumes "n \<le> 24"
  shows "(push_bit n (ucast (b :: 8 word)) :: 32 word) = 0 \<longleftrightarrow> b = 0"
proof
  assume z: "(push_bit n (ucast b) :: 32 word) = 0"
  show "b = 0"
  proof (rule bit_eqI)
    fix m assume "possible_bit TYPE(8 word) m"
    then have m: "m < 8" by (simp add: possible_bit_word)
    have "bit (push_bit n (ucast b) :: 32 word) (n + m) = bit b m"
      using assms m by (simp add: bit_push_bit_iff bit_ucast_iff)
    with z show "bit b m = bit (0 :: 8 word) m" by simp
  qed
next
  assume "b = 0" then show "(push_bit n (ucast b) :: 32 word) = 0" by simp
qed

lemma word_of_bytes_zero:
  "word_of_bytes b0 b1 b2 b3 = 0 \<longleftrightarrow> b0 = 0 \<and> b1 = 0 \<and> b2 = 0 \<and> b3 = 0"
  using ucast_push_zero [of 0 b0] ucast_push_zero [of 8 b1]
        ucast_push_zero [of 16 b2] ucast_push_zero [of 24 b3]
  by (simp add: word_of_bytes_def or_eq_0_iff)

lemma length_Tunion_bytes:
  "length (Tunion_bytes var) = int_sizeof_T (length var) * sizeof_int"
  by (simp add: Tunion_bytes_def int_sizeof_T_def sizeof_int_def)

lemma set_Tunion_bytes_zero:
  "(\<forall>b \<in> set (Tunion_bytes var). b = 0) \<longleftrightarrow> (\<forall>b \<in> set var. b = 0)"
  by (auto simp: Tunion_bytes_def)

lemma Tunion_arr_zero:
  "Tunion_arr var i = 0 \<longleftrightarrow>
     (\<forall>m. sizeof_int * i \<le> m \<and> m < sizeof_int * i + sizeof_int \<longrightarrow> Tunion_bytes var ! m = 0)"
proof -
  have "{m. 4 * i \<le> m \<and> m < 4 * i + 4} = {4 * i, 4 * i + 1, 4 * i + 2, 4 * i + 3}"
    by auto
  then have "(\<forall>m. 4 * i \<le> m \<and> m < 4 * i + 4 \<longrightarrow> Tunion_bytes var ! m = 0) \<longleftrightarrow>
      (\<forall>m \<in> {4 * i, 4 * i + 1, 4 * i + 2, 4 * i + 3}. Tunion_bytes var ! m = 0)"
    by blast
  then show ?thesis
    by (simp add: Tunion_arr_def Let_def word_of_bytes_zero sizeof_int_def)
qed

lemma bitwize_zero_loop_zero:
  "bitwize_zero_loop var i zero = 0 \<longleftrightarrow>
     zero = 0 \<and> (\<forall>k. i \<le> k \<and> k < int_sizeof_T (length var) \<longrightarrow> Tunion_arr var k = 0)"
proof (induction var i zero rule: bitwize_zero_loop.induct)
  case (1 var i zero)
  let ?n = "int_sizeof_T (length var)"
  show ?case
  proof (cases "i < ?n")
    case True
    have step: "bitwize_zero_loop var i zero =
        bitwize_zero_loop var (i + 1) (zero OR Tunion_arr var i)"
      by (subst bitwize_zero_loop.simps) (simp only: True if_True)
    have range: "(\<forall>k. i \<le> k \<and> k < ?n \<longrightarrow> Tunion_arr var k = 0) \<longleftrightarrow>
        Tunion_arr var i = 0 \<and> (\<forall>k. i + 1 \<le> k \<and> k < ?n \<longrightarrow> Tunion_arr var k = 0)"
    proof (intro iffI conjI allI impI)
      fix k
      assume a: "Tunion_arr var i = 0 \<and> (\<forall>k. i + 1 \<le> k \<and> k < ?n \<longrightarrow> Tunion_arr var k = 0)"
        and k: "i \<le> k \<and> k < ?n"
      show "Tunion_arr var k = 0"
      proof (cases "k = i")
        case True with a show ?thesis by simp
      next
        case False
        with k have "i + 1 \<le> k \<and> k < ?n" by simp
        with a show ?thesis by blast
      qed
    qed (use True in auto)
    show ?thesis
      unfolding step "1.IH" [OF True] range or_eq_0_iff by blast
  next
    case False
    have "bitwize_zero_loop var i zero = zero"
      by (subst bitwize_zero_loop.simps) (simp only: False if_False)
    with False show ?thesis by auto
  qed
qed

lemma all_arr_zero_iff:
  "(\<forall>k. k < n \<longrightarrow> (\<forall>m. sizeof_int * k \<le> m \<and> m < sizeof_int * k + sizeof_int \<longrightarrow> P m)) \<longleftrightarrow>
   (\<forall>m < n * sizeof_int. P m)"
proof
  assume l: "\<forall>k. k < n \<longrightarrow> (\<forall>m. sizeof_int * k \<le> m \<and> m < sizeof_int * k + sizeof_int \<longrightarrow> P m)"
  show "\<forall>m < n * sizeof_int. P m"
  proof (intro allI impI)
    fix m assume m: "m < n * sizeof_int"
    then have "m div sizeof_int < n"
      by (simp add: sizeof_int_def)
    moreover have "sizeof_int * (m div sizeof_int) \<le> m"
      "m < sizeof_int * (m div sizeof_int) + sizeof_int"
      by (simp_all add: sizeof_int_def)
    ultimately show "P m" using l by blast
  qed
next
  assume r: "\<forall>m < n * sizeof_int. P m"
  show "\<forall>k. k < n \<longrightarrow> (\<forall>m. sizeof_int * k \<le> m \<and> m < sizeof_int * k + sizeof_int \<longrightarrow> P m)"
  proof (intro allI impI)
    fix k m assume k: "k < n" and m: "sizeof_int * k \<le> m \<and> m < sizeof_int * k + sizeof_int"
    from k have "sizeof_int * k + sizeof_int \<le> n * sizeof_int"
      by (simp add: sizeof_int_def)
    with m have "m < n * sizeof_int" by simp
    with r show "P m" by blast
  qed
qed

text \<open>
  C8: for every value, given by the bytes of its object representation,
  \<open>bitwize_zero\<close> returns true if and only if all bytes of the value are zero.
\<close>

theorem bitwize_zero_iff_all_bytes_zero:
  "bitwize_zero var \<longleftrightarrow> (\<forall>b \<in> set var. b = 0)"
proof -
  have "bitwize_zero var \<longleftrightarrow>
      (\<forall>m < int_sizeof_T (length var) * sizeof_int. Tunion_bytes var ! m = 0)"
    by (simp add: bitwize_zero_def bitwize_zero_loop_zero Tunion_arr_zero all_arr_zero_iff)
  also have "\<dots> \<longleftrightarrow> (\<forall>b \<in> set (Tunion_bytes var). b = 0)"
    by (simp add: all_set_conv_all_nth length_Tunion_bytes)
  also have "\<dots> \<longleftrightarrow> (\<forall>b \<in> set var. b = 0)"
    by (rule set_Tunion_bytes_zero)
  finally show ?thesis .
qed

theorem bitwize_zero_iff_all_bytes_zero_witness:
  "bitwize_zero [0, 0, 0, 0, 0] \<and> \<not> bitwize_zero [0, 0, 0, 0, 0, 128, 0, 0]"
  using bitwize_zero_iff_all_bytes_zero [of "[0, 0, 0, 0, 0]"]
    bitwize_zero_iff_all_bytes_zero [of "[0, 0, 0, 0, 0, 128, 0, 0]"]
  by simp

section \<open>Properties of the block reducer\<close>

lemma xor_pow2_aligned:
  assumes "2 * 2 ^ j dvd (t::nat)"
  shows "t XOR 2 ^ j = t + 2 ^ j"
proof -
  from assms obtain q where q: "t = 2 ^ Suc j * q" by (auto elim: dvdE)
  have "t div 2 ^ j = 2 * q" by (simp add: q)
  then have nb: "\<not> bit t j" by (simp add: bit_iff_odd)
  have "t XOR 2 ^ j = flip_bit j t" by (simp add: flip_bit_eq_xor push_bit_eq_mult) 
  also have "\<dots> = set_bit j t" using nb by (simp add: flip_bit_eq_if)
  also have "\<dots> = t + 2 ^ j" using nb by (simp add: set_bit_eq)
  finally show ?thesis .
qed

lemma multiples_gap:
  assumes "d dvd (a::nat)" "d dvd b" "a < b"
  shows "a + d \<le> b"
proof -
  from assms obtain x y where "a = d * x" "b = d * y" by (auto elim!: dvdE)
  with assms(3) have "x < y" by auto
  then have "d * (x + 1) \<le> d * y" by (intro mult_le_mono2) simp
  with \<open>a = d * x\<close> \<open>b = d * y\<close> show ?thesis by simp
qed

lemma lane_plus:
  assumes i: "0 < i" and ws: "2 * i dvd WS" "0 < WS" and t: "2 * i dvd (t::nat)"
  shows "t mod WS + i < WS" and "(t div WS) * WS + (t + i) mod WS = t + i"
proof -
  have "2 * i dvd t mod WS" using ws t by (simp add: dvd_mod)
  moreover have "t mod WS < WS" using ws by simp
  ultimately have "t mod WS + 2 * i \<le> WS" using ws(1) by (intro multiples_gap) auto
  with i show lt: "t mod WS + i < WS" by simp
  have "(t + i) mod WS = (t mod WS + i) mod WS" by (simp add: mod_add_left_eq)
  also have "\<dots> = t mod WS + i" using lt by simp
  finally show "(t div WS) * WS + (t + i) mod WS = t + i" by simp
qed

lemma guarded_step_aligned:
  assumes "0 < WS" "2 * 2 ^ j dvd WS" "2 * 2 ^ j dvd t" "t < length temp"
  shows "warp_step_guarded comb WS (2 ^ j) temp ! t =
     (if t + 2 ^ j < length temp then comb (temp ! t) (temp ! (t + 2 ^ j)) else temp ! t)"
proof -
  have x: "t XOR 2 ^ j = t + 2 ^ j" using assms(3) by (rule xor_pow2_aligned)
  have src: "(t div WS) * WS + (t + 2 ^ j) mod WS = t + 2 ^ j"
    using lane_plus(2) [of "2 ^ j" WS t] assms by simp
  show ?thesis
    using assms(4) by (simp add: warp_step_guarded_def shfl_sync_def Let_def x src)
qed

lemma xor_step_aligned:
  assumes "0 < WS" "2 * 2 ^ j dvd WS" "2 * 2 ^ j dvd t" "t < length temp"
    and full: "length temp mod WS = 0"
  shows "t + 2 ^ j < length temp"
    and "warp_step_xor comb WS (2 ^ j) temp ! t = comb (temp ! t) (temp ! (t + 2 ^ j))"
proof -
  have lt: "t mod WS + 2 ^ j < WS"
    using lane_plus(1) [of "2 ^ j" WS t] assms by simp
  have "2 * 2 ^ j dvd t mod WS" using assms by (simp add: dvd_mod)
  then have x: "(t mod WS) XOR 2 ^ j = t mod WS + 2 ^ j" by (rule xor_pow2_aligned)
  have src: "(t div WS) * WS + (t mod WS + 2 ^ j) mod WS = t + 2 ^ j"
    using lt by simp
  have d1: "WS dvd length temp" using full by (simp add: dvd_eq_mod_eq_0)
  have d2: "WS dvd (t div WS) * WS" by simp
  have d3: "(t div WS) * WS < length temp"
    by (rule le_less_trans [OF _ assms(4)]) simp
  have "(t div WS) * WS + WS \<le> length temp" by (rule multiples_gap [OF d2 d1 d3])
  moreover have "t + 2 ^ j < (t div WS) * WS + WS"
    using lt by (metis add.assoc add_less_cancel_left div_mult_mod_eq)
  ultimately show in_range: "t + 2 ^ j < length temp" by simp
  show "warp_step_xor comb WS (2 ^ j) temp ! t = comb (temp ! t) (temp ! (t + 2 ^ j))"
    using assms(4) in_range
    by (simp add: warp_step_xor_def shfl_xor_sync_def shfl_sync_def Let_def x src)
qed

lemma length_warp_steps [simp]:
  "length (warp_step_xor comb WS i temp) = length temp"
  "length (warp_step_guarded comb WS i temp) = length temp"
  by (simp_all add: warp_step_xor_def warp_step_guarded_def)

lemma foldr_append_nonempty:
  assumes assoc: "\<forall>x y z. comb (comb x y) z = comb x (comb y z)"
    and idr: "\<forall>x. comb x identity = x"
  shows "xs \<noteq> [] \<Longrightarrow>
     foldr comb (xs @ ys) identity = comb (foldr comb xs identity) (foldr comb ys identity)"
proof (induction xs)
  case Nil
  then show ?case by simp
next
  case (Cons x xs)
  show ?case
  proof (cases "xs = []")
    case True
    then show ?thesis using idr by simp
  next
    case False
    with Cons.IH show ?thesis using assoc by simp
  qed
qed

lemma combine_range_split:
  assumes assoc: "\<forall>x y z. comb (comb x y) z = comb x (comb y z)"
    and idr: "\<forall>x. comb x identity = x"
    and "a < b" "b \<le> c" "c \<le> length vals"
  shows "comb (combine_range comb identity vals a b) (combine_range comb identity vals b c)
     = combine_range comb identity vals a c"
proof -
  have "take (c - a) (drop a vals) = take (b - a) (drop a vals) @ take (c - b) (drop b vals)"
  proof -
    have "c - a = (b - a) + (c - b)" using assms(3,4) by simp
    then have "take (c - a) (drop a vals)
        = take (b - a) (drop a vals) @ take (c - b) (drop (b - a) (drop a vals))"
      by (simp only: take_add)
    then show ?thesis using assms(3) by simp
  qed
  moreover have "take (b - a) (drop a vals) \<noteq> []" using assms(3,4,5) by simp
  ultimately show ?thesis
    using foldr_append_nonempty [OF assoc idr] by (simp add: combine_range_def)
qed

lemma warp_inv_init:
  assumes idr: "\<forall>x. comb x identity = x"
  shows "warp_inv comb identity vals 1 vals"
proof -
  have "combine_range comb identity vals t (min (t + 1) (length vals)) = vals ! t"
    if "t < length vals" for t
  proof -
    from that have "min (t + 1) (length vals) - t = 1" by simp
    moreover from that have "take 1 (drop t vals) = [vals ! t]"
      by (simp add: take_Suc_conv_app_nth [of 0] hd_drop_conv_nth take_Suc)
    ultimately show ?thesis using idr by (simp add: combine_range_def)
  qed
  then show ?thesis by (simp add: warp_inv_def)
qed

lemma warp_inv_step:
  assumes assoc: "\<forall>x y z. comb (comb x y) z = comb x (comb y z)"
    and idr: "\<forall>x. comb x identity = x"
    and inv: "warp_inv comb identity vals (2 ^ j) temp"
    and len: "length temp' = length temp"
    and step: "\<forall>t < length temp. 2 * 2 ^ j dvd t \<longrightarrow>
        temp' ! t = (if t + 2 ^ j < length temp then comb (temp ! t) (temp ! (t + 2 ^ j))
                     else temp ! t)"
  shows "warp_inv comb identity vals (2 * 2 ^ j) temp'"
proof -
  let ?n = "length vals"
  let ?R = "combine_range comb identity vals"
  from inv have n: "length temp = ?n"
    and I: "\<And>t. t < ?n \<Longrightarrow> 2 ^ j dvd t \<Longrightarrow> temp ! t = ?R t (min (t + 2 ^ j) ?n)"
    by (simp_all add: warp_inv_def)
  have "temp' ! t = ?R t (min (t + 2 * 2 ^ j) ?n)" if t: "t < ?n" and al: "2 * 2 ^ j dvd t" for t
  proof -
    have al1: "2 ^ j dvd t" using al by (rule dvd_mult_right)
    show ?thesis
    proof (cases "t + 2 ^ j < ?n")
      case True
      have al2: "2 ^ j dvd t + 2 ^ j" using al1 by simp
      have "temp' ! t = comb (temp ! t) (temp ! (t + 2 ^ j))"
        using step t al True n by simp
      also have "\<dots> = comb (?R t (t + 2 ^ j)) (?R (t + 2 ^ j) (min (t + 2 ^ j + 2 ^ j) ?n))"
        using I [OF t al1] I [OF True al2] True by (simp add: min_def)
      also have "\<dots> = ?R t (min (t + 2 ^ j + 2 ^ j) ?n)"
        using True by (intro combine_range_split [OF assoc idr]) simp_all
      finally show ?thesis by (simp add: mult_2 add.assoc)
    next
      case False
      then have "temp' ! t = temp ! t" using step t al n by simp
      also have "\<dots> = ?R t (min (t + 2 ^ j) ?n)" by (rule I [OF t al1])
      also have "min (t + 2 ^ j) ?n = min (t + 2 * 2 ^ j) ?n" using False by simp
      finally show ?thesis .
    qed
  qed
  with len n show ?thesis by (simp add: warp_inv_def)
qed

lemma warp_loop_inv:
  assumes assoc: "\<forall>x y z. comb (comb x y) z = comb x (comb y z)"
    and idr: "\<forall>x. comb x identity = x"
    and step: "\<And>j temp. j < k \<Longrightarrow> length temp = length vals \<Longrightarrow>
        length (step (2 ^ j) temp) = length temp \<and>
        (\<forall>t < length temp. 2 * 2 ^ j dvd t \<longrightarrow>
           step (2 ^ j) temp ! t =
             (if t + 2 ^ j < length temp then comb (temp ! t) (temp ! (t + 2 ^ j))
              else temp ! t))"
  shows "j \<le> k \<Longrightarrow> warp_inv comb identity vals (2 ^ j) temp \<Longrightarrow>
     warp_inv comb identity vals (2 ^ k) (warp_loop step (2 ^ k) (2 ^ j) temp)"
proof (induction "k - j" arbitrary: j temp)
  case 0
  then have "j = k" by simp
  with 0 show ?case by (subst warp_loop.simps) simp
next
  case (Suc d)
  then have jk: "j < k" by simp
  then have lt: "(2::nat) ^ j < 2 ^ k" by simp
  from Suc.prems(2) have len: "length temp = length vals" by (simp add: warp_inv_def)
  have "warp_inv comb identity vals (2 * 2 ^ j) (step (2 ^ j) temp)"
    using step [OF jk len] by (intro warp_inv_step [OF assoc idr Suc.prems(2)]) simp_all
  then have "warp_inv comb identity vals (2 ^ Suc j) (step (2 ^ j) temp)" by simp
  moreover have "d = k - Suc j" using Suc.hyps(2) by simp
  moreover have "Suc j \<le> k" using jk by simp
  ultimately have "warp_inv comb identity vals (2 ^ k)
      (warp_loop step (2 ^ k) (2 ^ Suc j) (step (2 ^ j) temp))"
    using Suc.hyps(1) by blast
  then show ?case using lt by (subst warp_loop.simps) (simp add: mult.commute)
qed

lemma pow2_dvd: "j < k \<Longrightarrow> 2 * (2::nat) ^ j dvd 2 ^ k"
  using le_imp_power_dvd [of "Suc j" k "2::nat"] by simp

lemma warp_stage:
  assumes assoc: "\<forall>x y z. comb (comb x y) z = comb x (comb y z)"
    and idr: "\<forall>x. comb x identity = x"
  shows "warp_inv comb identity vals (2 ^ k)
     (if length vals mod 2 ^ k = 0
      then warp_loop (warp_step_xor comb (2 ^ k)) (2 ^ k) 1 vals
      else warp_loop (warp_step_guarded comb (2 ^ k)) (2 ^ k) 1 vals)"
proof (cases "length vals mod 2 ^ k = 0")
  case True
  have "warp_inv comb identity vals (2 ^ k)
      (warp_loop (warp_step_xor comb (2 ^ k)) (2 ^ k) (2 ^ 0) vals)"
  proof (rule warp_loop_inv [OF assoc idr])
    fix j and temp :: "'a list" assume j: "j < k" and len: "length temp = length vals"
    show "length (warp_step_xor comb (2 ^ k) (2 ^ j) temp) = length temp \<and>
        (\<forall>t<length temp. 2 * 2 ^ j dvd t \<longrightarrow>
           warp_step_xor comb (2 ^ k) (2 ^ j) temp ! t =
             (if t + 2 ^ j < length temp then comb (temp ! t) (temp ! (t + 2 ^ j))
              else temp ! t))"
      using xor_step_aligned [where WS = "2 ^ k" and j = j and temp = temp] pow2_dvd [OF j] True len
      by simp
  qed (use warp_inv_init [of comb identity, OF idr] in simp_all)
  with True show ?thesis by simp
next
  case False
  have "warp_inv comb identity vals (2 ^ k)
      (warp_loop (warp_step_guarded comb (2 ^ k)) (2 ^ k) (2 ^ 0) vals)"
  proof (rule warp_loop_inv [OF assoc idr])
    fix j and temp :: "'a list" assume j: "j < k" and len: "length temp = length vals"
    show "length (warp_step_guarded comb (2 ^ k) (2 ^ j) temp) = length temp \<and>
        (\<forall>t<length temp. 2 * 2 ^ j dvd t \<longrightarrow>
           warp_step_guarded comb (2 ^ k) (2 ^ j) temp ! t =
             (if t + 2 ^ j < length temp then comb (temp ! t) (temp ! (t + 2 ^ j))
              else temp ! t))"
      using guarded_step_aligned [where WS = "2 ^ k" and j = j and temp = temp] pow2_dvd [OF j]
      by simp
  qed (use warp_inv_init [of comb identity, OF idr] in simp_all)
  with False show ?thesis by simp
qed

lemma write_sd_upto:
  assumes "0 < WS"
  shows "length (fold (\<lambda>threadId sd.
             if threadId mod WS = 0 then sd[threadId div WS := temp ! threadId] else sd)
           [0..<m] sd) = length sd \<and>
     (\<forall>w < length sd.
        fold (\<lambda>threadId sd.
             if threadId mod WS = 0 then sd[threadId div WS := temp ! threadId] else sd)
           [0..<m] sd ! w = (if w * WS < m then temp ! (w * WS) else sd ! w))"
proof (induction m)
  case 0
  then show ?case by simp
next
  case (Suc m)
  let ?f = "\<lambda>threadId sd.
      if threadId mod WS = 0 then sd[threadId div WS := temp ! threadId] else sd"
  let ?s = "fold ?f [0..<m] sd"
  from Suc have len: "length ?s = length sd"
    and IH: "\<And>w. w < length sd \<Longrightarrow> ?s ! w = (if w * WS < m then temp ! (w * WS) else sd ! w)"
    by simp_all
  have step: "fold ?f [0..<Suc m] sd = ?f m ?s" by simp
  show ?case
  proof (cases "m mod WS = 0")
    case False
    have "w * WS \<noteq> m" for w using False by auto
    then have "(w * WS < Suc m) = (w * WS < m)" for w
      by (metis less_Suc_eq)
    with False len IH show ?thesis by (simp only: step) simp
  next
    case True
    then have m: "m = (m div WS) * WS" by auto
    have "fold ?f [0..<Suc m] sd ! w = (if w * WS < Suc m then temp ! (w * WS) else sd ! w)"
      if w: "w < length sd" for w
    proof (cases "w = m div WS")
      case True
      with m have "w * WS = m" by simp
      with True \<open>m mod WS = 0\<close> w len show ?thesis by (simp only: step) simp
    next
      case False
      then have ne: "w * WS \<noteq> m" using assms by auto
      then have "(w * WS < Suc m) = (w * WS < m)" by (metis less_Suc_eq)
      with False \<open>m mod WS = 0\<close> w len IH [OF w] show ?thesis by (simp only: step) simp
    qed
    moreover have "length (fold ?f [0..<Suc m] sd) = length sd"
      using len by (simp only: step) simp
    ultimately show ?thesis by blast
  qed
qed

lemma write_sd_nth:
  assumes "0 < WS" "w < length sd" "w * WS < length temp"
  shows "write_sd WS temp sd ! w = temp ! (w * WS)"
  using write_sd_upto [OF assms(1), of temp "length temp" sd] assms(2,3)
  by (simp add: write_sd_def)

lemma combine_chunks:
  assumes assoc: "\<forall>x y z. comb (comb x y) z = comb x (comb y z)"
    and idr: "\<forall>x. comb x identity = x"
    and ws: "0 < WS"
  shows "foldr comb
       (map (\<lambda>w. if w * WS < length vals
                 then combine_range comb identity vals (w * WS) (min (w * WS + WS) (length vals))
                 else identity) [0..<m]) identity
     = combine_range comb identity vals 0 (min (m * WS) (length vals))"
proof (induction m)
  case 0
  then show ?case by (simp add: combine_range_def)
next
  case (Suc m)
  let ?n = "length vals"
  let ?R = "combine_range comb identity vals"
  let ?g = "\<lambda>w. if w * WS < ?n then ?R (w * WS) (min (w * WS + WS) ?n) else identity"
  show ?case
  proof (cases "m = 0")
    case True
    then show ?thesis using idr by (simp add: combine_range_def)
  next
    case False
    then have ne: "map ?g [0..<m] \<noteq> []" by simp
    have "foldr comb (map ?g [0..<Suc m]) identity
        = foldr comb (map ?g [0..<m] @ [?g m]) identity" by simp
    also have "\<dots> = comb (foldr comb (map ?g [0..<m]) identity) (foldr comb [?g m] identity)"
      by (rule foldr_append_nonempty [OF assoc idr ne])
    also have "\<dots> = comb (?R 0 (min (m * WS) ?n)) (?g m)"
      using Suc.IH idr by simp
    also have "\<dots> = ?R 0 (min (Suc m * WS) ?n)"
    proof (cases "m * WS < ?n")
      case True
      have pos: "0 < m * WS" using False ws by simp
      have "comb (?R 0 (m * WS)) (?R (m * WS) (min (m * WS + WS) ?n))
          = ?R 0 (min (m * WS + WS) ?n)"
        using True pos by (intro combine_range_split [OF assoc idr]) simp_all
      with True show ?thesis by (simp add: min_def add.commute)
    next
      case False
      then have "min (m * WS) ?n = ?n" "min (Suc m * WS) ?n = ?n" by simp_all
      with False idr show ?thesis by simp
    qed
    finally show ?thesis .
  qed
qed

lemma combine_range_all:
  "length vals \<le> b \<Longrightarrow> combine_range comb identity vals 0 b = foldr comb vals identity"
  by (simp add: combine_range_def)

lemma block_reduce_combines:
  assumes assoc: "\<forall>x y z. comb (comb x y) z = comb x (comb y z)"
    and idr: "\<forall>x. comb x identity = x"
    and nonempty: "0 < length vals"
    and max_block: "length vals \<le> 2 ^ k * 2 ^ k"
    and max_warps: "length vals \<le> 2 ^ k * length sd"
  shows "block_reduce comb identity (2 ^ k) sd vals ! 0 = foldr comb vals identity"
proof -
  let ?WS = "(2::nat) ^ k"
  let ?n = "length vals"
  let ?R = "combine_range comb identity vals"
  let ?temp = "if ?n mod ?WS = 0
      then warp_loop (warp_step_xor comb ?WS) ?WS 1 vals
      else warp_loop (warp_step_guarded comb ?WS) ?WS 1 vals"
  have inv: "warp_inv comb identity vals ?WS ?temp"
    by (rule warp_stage [OF assoc idr])
  then have len: "length ?temp = ?n"
    and warp: "\<And>t. t < ?n \<Longrightarrow> ?WS dvd t \<Longrightarrow> ?temp ! t = ?R t (min (t + ?WS) ?n)"
    by (simp_all add: warp_inv_def)
  show ?thesis
  proof (cases "?n > ?WS")
    case False
    then have "block_reduce comb identity ?WS sd vals = ?temp"
      by (simp add: block_reduce_def Let_def)
    moreover have "?temp ! 0 = ?R 0 (min (0 + ?WS) ?n)"
      using nonempty by (intro warp) simp_all
    moreover have "min (0 + ?WS) ?n = ?n" using False by simp
    ultimately show ?thesis by (simp add: combine_range_all)
  next
    case True
    let ?sd = "write_sd ?WS ?temp sd"
    let ?warp0 = "map (\<lambda>warpId. if warpId * ?WS < ?n then ?sd ! warpId else identity) [0..<?WS]"
    let ?g = "\<lambda>w. if w * ?WS < ?n then ?R (w * ?WS) (min (w * ?WS + ?WS) ?n) else identity"
    have w0: "?warp0 = map ?g [0..<?WS]"
    proof (rule map_cong [OF refl])
      fix w assume "w \<in> set [0..<?WS]"
      show "(if w * ?WS < ?n then ?sd ! w else identity) = ?g w"
      proof (cases "w * ?WS < ?n")
        case True
        from True max_warps have "w * ?WS < ?WS * length sd" by (rule less_le_trans)
        then have "?WS * w < ?WS * length sd" by (simp only: mult.commute [of w])
        then have "w < length sd" by simp
        then have "?sd ! w = ?temp ! (w * ?WS)"
          using True len by (intro write_sd_nth) simp_all
        also have "\<dots> = ?R (w * ?WS) (min (w * ?WS + ?WS) ?n)"
          using True by (intro warp) simp_all
        finally show ?thesis using True by simp
      next
        case False
        then show ?thesis by simp
      qed
    qed
    have inv0: "warp_inv comb identity ?warp0 ?WS
        (warp_loop (warp_step_xor comb ?WS) ?WS 1 ?warp0)"
      using warp_stage [OF assoc idr, of ?warp0 k] by simp
    have "block_reduce comb identity ?WS sd vals ! 0
        = warp_loop (warp_step_xor comb ?WS) ?WS 1 ?warp0 ! 0"
    proof -
      have "length (warp_loop (warp_step_xor comb ?WS) ?WS 1 ?warp0) = ?WS"
        using inv0 by (simp add: warp_inv_def)
      then have "(warp_loop (warp_step_xor comb ?WS) ?WS 1 ?warp0 @ drop ?WS ?temp) ! 0
          = warp_loop (warp_step_xor comb ?WS) ?WS 1 ?warp0 ! 0"
        by (simp add: nth_append)
      with True show ?thesis by (simp add: block_reduce_def Let_def)
    qed
    also have "\<dots> = combine_range comb identity ?warp0 0 (min (0 + ?WS) (length ?warp0))"
      using inv0 by (simp add: warp_inv_def)
    also have "\<dots> = foldr comb ?warp0 identity"
      by (simp add: combine_range_all)
    also have "\<dots> = ?R 0 (min (?WS * ?WS) ?n)"
      unfolding w0 by (rule combine_chunks [OF assoc idr]) simp
    also have "\<dots> = foldr comb vals identity"
      using max_block by (simp add: combine_range_all)
    finally show ?thesis .
  qed
qed


text \<open>
  C3: for every block of at least one and at most \<open>WARP_SIZE * WARP_SIZE\<close> threads that
  the shared array has room for, whether its size is a multiple of the warp size or
  not, and for every value in each thread, \<open>block_reduce\<close> returns in thread 0 the
  combination of the values of all threads, each taken once, in the order of the
  thread ids. The reducer's combine is associative and has the identity as right
  neutral element; the warp size is a power of two.
\<close>

theorem block_reduce_thread0:
  assumes "\<forall>x y z. comb (comb x y) z = comb x (comb y z)"
    and "\<forall>x. comb x identity = x"
    and "0 < length vals"
    and "length vals \<le> 2 ^ k * 2 ^ k"
    and "length vals \<le> 2 ^ k * length sd"
  shows "block_reduce comb identity (2 ^ k) sd vals ! 0 = foldr comb vals identity"
  using assms by (rule block_reduce_combines)

theorem block_reduce_thread0_witness:
  "(\<forall>x y z :: int. (x + y) + z = x + (y + z)) \<and> (\<forall>x :: int. x + 0 = x) \<and>
   0 < length [1, 2, 3, 4, 5, 6, 7 :: int] \<and>
   length [1, 2, 3, 4, 5, 6, 7 :: int] \<le> 2 ^ 2 * 2 ^ 2 \<and>
   length [1, 2, 3, 4, 5, 6, 7 :: int] \<le> 2 ^ 2 * length [0, 0, 0, 0 :: int] \<and>
   block_reduce (+) 0 (2 ^ 2) [0, 0, 0, 0] [1, 2, 3, 4, 5, 6, 7 :: int] ! 0 = 28"
  using block_reduce_thread0 [of "(+)" "0 :: int" "[1, 2, 3, 4, 5, 6, 7]" 2 "[0, 0, 0, 0]"]
  by simp

section \<open>Properties of the grid reducer, tree variant\<close>

lemma filter_update_count:
  "b < length xs \<Longrightarrow>
   length (filter P (xs[b := v])) + (if P (xs ! b) then 1 else 0)
     = length (filter P xs) + (if P v then 1 else 0)"
proof (induction xs arbitrary: b)
  case Nil
  then show ?case by simp
next
  case (Cons x xs)
  then show ?case by (cases b) auto
qed

lemma filter_all_length:
  "length (filter P xs) = length xs \<longleftrightarrow> (\<forall>i < length xs. P (xs ! i))"
proof
  assume "length (filter P xs) = length xs"
  then have "filter P xs = xs" by (metis length_filter_less less_irrefl filter_True)
  then have "\<forall>x \<in> set xs. P x" by (metis filter_id_conv)
  then show "\<forall>i < length xs. P (xs ! i)" by simp
next
  assume "\<forall>i < length xs. P (xs ! i)"
  then have "\<forall>x \<in> set xs. P x" by (simp add: all_set_conv_all_nth)
  then show "length (filter P xs) = length xs" by simp
qed



















section \<open>Properties of the grid reducer, atomic variant\<close>

lemma atomic_zero_step:
  assumes z: "bitwize_zero (repr identity)" and N: "1 < length vals"
    and len: "length (pc st) = length vals"
    and pcs: "\<forall>b < length vals. pc st ! b \<noteq> 1 \<and> pc st ! b \<noteq> 2"
    and cnt: "counter st = length (filter (\<lambda>p. 6 \<le> p) (pc st))"
    and last: "lastBlock st = replicate (length vals) False"
    and sl: "slot st = []"
  shows "length (pc (grid_reduce_atomic_step comb identity repr WS sd vals b st)) = length vals \<and>
     (\<forall>b' < length vals. pc (grid_reduce_atomic_step comb identity repr WS sd vals b st) ! b' \<noteq> 1 \<and>
        pc (grid_reduce_atomic_step comb identity repr WS sd vals b st) ! b' \<noteq> 2) \<and>
     counter (grid_reduce_atomic_step comb identity repr WS sd vals b st)
       = length (filter (\<lambda>p. 6 \<le> p) (pc (grid_reduce_atomic_step comb identity repr WS sd vals b st))) \<and>
     lastBlock (grid_reduce_atomic_step comb identity repr WS sd vals b st)
       = replicate (length vals) False \<and>
     slot (grid_reduce_atomic_step comb identity repr WS sd vals b st) = []"
proof (cases "b < length vals")
  case False
  with assms show ?thesis by (simp add: grid_reduce_atomic_step_def Let_def)
next
  case b: True
  let ?N = "length vals"
  let ?P = "\<lambda>p::nat. 6 \<le> p"
  let ?d = "length (filter ?P (pc st))"
  let ?st' = "grid_reduce_atomic_step comb identity repr WS sd vals b st"
  have bl: "b < length (pc st)" using b len by simp
  have upd: "length (filter ?P ((pc st)[b := v])) + (if ?P (pc st ! b) then 1 else 0)
      = ?d + (if ?P v then 1 else 0)" for v
    by (rule filter_update_count [OF bl])
  have nl: "\<not> lastBlock st ! b" using last b by simp
  have rep: "(replicate ?N False)[b := False] = replicate ?N False"
    using b by (intro nth_equalityI) (auto simp: nth_list_update)
  have other: "\<And>v b'. b' < ?N \<Longrightarrow> (pc st)[b := v] ! b' = (if b' = b then v else pc st ! b')"
    using len by (simp add: nth_list_update)
  have "pc st ! b \<noteq> 1 \<and> pc st ! b \<noteq> 2" using pcs b by simp
  then have "pc st ! b = 0 \<or> pc st ! b = 3 \<or> pc st ! b = 4 \<or> pc st ! b = 5 \<or>
      pc st ! b = 6 \<or> 7 \<le> pc st ! b" by arith
  then consider (p0) "pc st ! b = 0" | (p3) "pc st ! b = 3" | (p4) "pc st ! b = 4"
    | (p5) "pc st ! b = 5" | (p6) "pc st ! b = 6" | (p7) "7 \<le> pc st ! b"
    by (elim disjE) simp_all
  then show ?thesis
  proof cases
    case p0
    have st': "?st' = st\<lparr>pc := (pc st)[b := 3]\<rparr>"
      using b N p0 z by (simp add: grid_reduce_atomic_step_def Let_def)
    show ?thesis unfolding st' using upd [of 3] p0 len pcs cnt last sl other by simp
  next
    case p3
    have st': "?st' = st\<lparr>pc := (pc st)[b := 4]\<rparr>"
      using b N p3 z by (simp add: grid_reduce_atomic_step_def Let_def)
    show ?thesis unfolding st' using upd [of 4] p3 len pcs cnt last sl other by simp
  next
    case p4
    have st': "?st' = st\<lparr>device_mem := (device_mem st)
          [0 := comb (device_mem st ! 0)
             (block_aggregate comb identity WS (sd b 0) (vals ! b))],
        pc := (pc st)[b := 5],
        trace := trace st @ [AtomicCombine b (device_mem st ! 0)]\<rparr>"
      using b N p4 by (simp add: grid_reduce_atomic_step_def Let_def)
    show ?thesis unfolding st' using upd [of 5] p4 len pcs cnt last sl other by simp
  next
    case p5
    have "pc st ! b \<in> set (pc st)" using bl by simp
    moreover have "\<not> ?P (pc st ! b)" using p5 by simp
    ultimately have "?d < length (pc st)" by (rule length_filter_less)
    then have dN: "?d < ?N" using len by simp
    have st': "?st' = st\<lparr>counter := ?d + 1, lastBlock := (lastBlock st)[b := False],
        pc := (pc st)[b := 6]\<rparr>"
      using b N p5 cnt dN by (simp add: grid_reduce_atomic_step_def Let_def atomicInc_def)
    show ?thesis unfolding st' using upd [of 6] p5 len pcs last sl other rep by simp
  next
    case p6
    have st': "?st' = st\<lparr>pc := (pc st)[b := 7]\<rparr>"
      using b N p6 nl by (simp add: grid_reduce_atomic_step_def Let_def)
    show ?thesis unfolding st' using upd [of 7] p6 len pcs cnt last sl other by simp
  next
    case p7
    then have "?st' = st" using b N by (simp add: grid_reduce_atomic_step_def Let_def)
    with assms show ?thesis by simp
  qed
qed

lemma atomic_zero_inv_step:
  assumes "bitwize_zero (repr identity)" "1 < length vals" "atomic_zero_inv vals st"
  shows "atomic_zero_inv vals (grid_reduce_atomic_step comb identity repr WS sd vals b st)"
  using atomic_zero_step [where repr = repr and identity = identity and st = st and comb = comb
      and WS = WS and sd = sd and b = b, OF assms(1,2)] assms(3)
  unfolding atomic_zero_inv_def by blast

lemma atomic_zero_inv_run:
  assumes "bitwize_zero (repr identity)" "1 < length vals"
  shows "atomic_zero_inv vals st \<Longrightarrow>
     atomic_zero_inv vals (grid_reduce_atomic_run comb identity repr WS sd vals sched st)"
  unfolding grid_reduce_atomic_run_def
  by (induction sched arbitrary: st) (simp_all add: atomic_zero_inv_step [where repr = repr and identity = identity, OF assms])

lemma atomic_zero_identity_never_last:
  assumes "bitwize_zero (repr identity)" "1 < length vals"
  shows "slot (grid_reduce_atomic_run comb identity repr WS sd vals sched
            (atomic_init zero (length vals))) = [] \<and>
     lastBlock (grid_reduce_atomic_run comb identity repr WS sd vals sched
            (atomic_init zero (length vals))) = replicate (length vals) False"
proof -
  have "atomic_zero_inv vals (atomic_init zero (length vals))"
    by (simp add: atomic_zero_inv_def atomic_init_def)
  from atomic_zero_inv_run [where repr = repr and identity = identity, OF assms this] show ?thesis
    by (simp add: atomic_zero_inv_def)
qed

text \<open>
  C2 fails on the code for a reducer whose identity is bitwise zero. For the sum of
  32-bit integers on two blocks, in whatever order the blocks take their steps, no
  block is last and the slot is never written; when both blocks have run to the end the
  counter holds 2: the increments returned 0 and 1, never \<open>wrap_around = 3\<close>.
\<close>

theorem atomic_sum_never_writes_slot:
  "bitwize_zero (int32_bytes 0) \<and>
   (\<forall>sched.
      slot (grid_reduce_atomic_run (+) 0 int32_bytes (2 ^ 5) (\<lambda>b c. replicate 32 0)
              [[1, 2], [3, 4]] sched (atomic_init 0 (length [[1, 2], [3, 4 :: int]]))) = [] \<and>
      lastBlock (grid_reduce_atomic_run (+) 0 int32_bytes (2 ^ 5) (\<lambda>b c. replicate 32 0)
              [[1, 2], [3, 4]] sched (atomic_init 0 (length [[1, 2], [3, 4 :: int]])))
        = [False, False]) \<and>
   grid_reduce_atomic_run (+) 0 int32_bytes (2 ^ 5) (\<lambda>b c. replicate 32 0)
       [[1, 2], [3, 4]] [0, 1, 0, 1, 0, 1, 0, 1, 0, 1] (atomic_init 0 (length [[1, 2], [3, 4 :: int]]))
     = \<lparr>device_mem = [10], counter = 2, pc = [7, 7], lastBlock = [False, False], slot = [],
        trace = [AtomicCombine 0 0, AtomicCombine 1 3]\<rparr>"
proof -
  have z: "bitwize_zero (int32_bytes 0)" by code_simp
  have N: "1 < length [[1, 2], [3, 4 :: int]]" by simp
  have rep: "replicate (length [[1, 2], [3, 4 :: int]]) False = [False, False]" by simp
  have run: "grid_reduce_atomic_run (+) 0 int32_bytes (2 ^ 5) (\<lambda>b c. replicate 32 0)
       [[1, 2], [3, 4]] [0, 1, 0, 1, 0, 1, 0, 1, 0, 1] (atomic_init 0 (length [[1, 2], [3, 4 :: int]]))
     = \<lparr>device_mem = [10], counter = 2, pc = [7, 7], lastBlock = [False, False], slot = [],
        trace = [AtomicCombine 0 0, AtomicCombine 1 3]\<rparr>"
    by code_simp
  from atomic_zero_identity_never_last [where repr = int32_bytes and identity = 0
      and comb = "(+)" and WS = "2 ^ 5" and sd = "\<lambda>b c. replicate 32 0" and zero = 0, OF z N]
  have "\<forall>sched.
      slot (grid_reduce_atomic_run (+) 0 int32_bytes (2 ^ 5) (\<lambda>b c. replicate 32 0)
              [[1, 2], [3, 4]] sched (atomic_init 0 (length [[1, 2], [3, 4 :: int]]))) = [] \<and>
      lastBlock (grid_reduce_atomic_run (+) 0 int32_bytes (2 ^ 5) (\<lambda>b c. replicate 32 0)
              [[1, 2], [3, 4]] sched (atomic_init 0 (length [[1, 2], [3, 4 :: int]])))
        = [False, False]"
    unfolding rep by blast
  with z run show ?thesis by (intro conjI)
qed

lemma replay_snoc:
  "replay comb identity agg (es @ [e]) = replay_event comb identity agg e (replay comb identity agg es)"
  by (simp add: replay_def)

lemma atomic_invI:
  assumes "length (pc st) = length vals" "0 < length (device_mem st)"
    and "replay comb identity (\<lambda>b. block_aggregate comb identity WS (sd b 0) (vals ! b)) (trace st)
          = Some (cur, spun)"
    and "\<And>b. b < length vals \<Longrightarrow> 4 \<le> pc st ! b \<Longrightarrow> b \<in> set spun"
    and "atomic_phase_before vals st cur \<or> (\<exists>w. atomic_phase_init vals st cur w) \<or>
         atomic_phase_after vals st cur"
  shows "atomic_inv comb identity WS sd vals st"
  unfolding atomic_inv_def using assms by blast

lemma filter_none: "(\<And>i. i < length xs \<Longrightarrow> \<not> P (xs ! i)) \<Longrightarrow> filter P xs = []"
  by (auto simp: filter_empty_conv in_set_conv_nth)

lemma atomic_inv_step:
  assumes nz: "\<not> bitwize_zero (repr identity)" and N: "1 < length vals"
    and inv: "atomic_inv comb identity WS sd vals st"
  shows "atomic_inv comb identity WS sd vals
     (grid_reduce_atomic_step comb identity repr WS sd vals b st)"
proof (cases "b < length vals")
  case False
  with inv show ?thesis by (simp add: grid_reduce_atomic_step_def Let_def)
next
  case b: True
  let ?N = "length vals"
  let ?P = "\<lambda>p::nat. 6 \<le> p"
  let ?d = "length (filter ?P (pc st))"
  let ?agg = "\<lambda>b. block_aggregate comb identity WS (sd b 0) (vals ! b)"
  let ?st' = "grid_reduce_atomic_step comb identity repr WS sd vals b st"
  from inv obtain cur spun where len: "length (pc st) = ?N" and dm: "0 < length (device_mem st)"
    and rp: "replay comb identity ?agg (trace st) = Some (cur, spun)"
    and sp: "\<And>b. b < ?N \<Longrightarrow> 4 \<le> pc st ! b \<Longrightarrow> b \<in> set spun"
    and ph: "atomic_phase_before vals st cur \<or> (\<exists>w. atomic_phase_init vals st cur w) \<or>
         atomic_phase_after vals st cur"
    unfolding atomic_inv_def by blast
  have bl: "b < length (pc st)" using b len by simp
  have upd: "length (filter ?P ((pc st)[b := v])) + (if ?P (pc st ! b) then 1 else 0)
      = ?d + (if ?P v then 1 else 0)" for v
    by (rule filter_update_count [OF bl])
  have nth': "\<And>v b'. b' < ?N \<Longrightarrow> (pc st)[b := v] ! b' = (if b' = b then v else pc st ! b')"
    using len by (simp add: nth_list_update)
  have dN: "?d < ?N" if "\<not> ?P (pc st ! b)"
  proof -
    have "pc st ! b \<in> set (pc st)" using bl by simp
    from length_filter_less [of "pc st ! b" "pc st" ?P, OF this that] show ?thesis using len by simp
  qed
  from ph consider (A) "atomic_phase_before vals st cur"
    | (B) w where "atomic_phase_init vals st cur w"
    | (C) "atomic_phase_after vals st cur"
    by blast
  then show ?thesis
  proof cases
    case A
    then have c0: "counter st = 0" and cur: "cur = None" and all0: "\<And>b. b < ?N \<Longrightarrow> pc st ! b = 0"
      by (simp_all add: atomic_phase_before_def)
    have p0: "pc st ! b = 0" using all0 b by simp
    have st': "?st' = st\<lparr>counter := 1, pc := (pc st)[b := 1]\<rparr>"
      using b N p0 nz c0 by (simp add: grid_reduce_atomic_step_def Let_def atomicCAS_def)
    show ?thesis
    proof (rule atomic_invI [where cur = cur and spun = spun])
      show "length (pc ?st') = ?N" "0 < length (device_mem ?st')" using len dm by (simp_all add: st')
      show "replay comb identity ?agg (trace ?st') = Some (cur, spun)" using rp by (simp add: st')
    next
      fix b' assume "b' < ?N" "4 \<le> pc ?st' ! b'"
      then show "b' \<in> set spun" using all0 nth' by (simp add: st' split: if_splits)
    next
      have "atomic_phase_init vals ?st' cur b"
        unfolding atomic_phase_init_def using b cur bl all0 by (simp add: st')
      then show "atomic_phase_before vals ?st' cur \<or> (\<exists>w. atomic_phase_init vals ?st' cur w) \<or>
         atomic_phase_after vals ?st' cur" by blast
    qed
  next
    case (B w)
    then have c1: "counter st = 1" and w: "w < ?N"
      and pw: "pc st ! w = 1 \<and> cur = None \<or> pc st ! w = 2 \<and> cur = Some (device_mem st ! 0)"
      and others: "\<And>b. b < ?N \<Longrightarrow> b \<noteq> w \<Longrightarrow> pc st ! b = 0 \<or> pc st ! b = 3"
      by (simp_all add: atomic_phase_init_def)
    have le3: "\<And>b'. b' < ?N \<Longrightarrow> pc st ! b' \<le> 3"
    proof -
      fix b' assume "b' < ?N"
      then show "pc st ! b' \<le> 3" using others [of b'] pw by (cases "b' = w") auto
    qed
    show ?thesis
    proof (cases "b = w")
      case True
      have others_b: "\<And>b'. b' < ?N \<Longrightarrow> b' \<noteq> b \<Longrightarrow> pc st ! b' = 0 \<or> pc st ! b' = 3"
        using others True by simp
      have pb: "pc st ! b = 1 \<and> cur = None \<or> pc st ! b = 2 \<and> cur = Some (device_mem st ! 0)"
        using pw True by simp
      from pb show ?thesis
      proof (elim disjE conjE)
        assume p1: "pc st ! b = 1" and cur: "cur = None"
        have st': "?st' = st\<lparr>device_mem := (device_mem st)[0 := identity],
            pc := (pc st)[b := 2], trace := trace st @ [InitWrite b]\<rparr>"
          using b N p1 by (simp add: grid_reduce_atomic_step_def Let_def)
        show ?thesis
        proof (rule atomic_invI [where cur = "Some identity" and spun = spun])
          show "length (pc ?st') = ?N" "0 < length (device_mem ?st')"
            using len dm by (simp_all add: st')
          show "replay comb identity ?agg (trace ?st') = Some (Some identity, spun)"
            using rp cur by (simp add: st' replay_snoc)
        next
          fix b' assume "b' < ?N" "4 \<le> pc ?st' ! b'"
          then show "b' \<in> set spun" using le3 [of b'] nth' by (simp add: st' split: if_splits)
        next
          have "atomic_phase_init vals ?st' (Some identity) b"
            unfolding atomic_phase_init_def using b bl dm c1 others_b by (simp add: st')
          then show "atomic_phase_before vals ?st' (Some identity) \<or>
             (\<exists>w. atomic_phase_init vals ?st' (Some identity) w) \<or>
             atomic_phase_after vals ?st' (Some identity)" by blast
        qed
      next
        assume p2: "pc st ! b = 2" and cur: "cur = Some (device_mem st ! 0)"
        have st': "?st' = st\<lparr>counter := 2, pc := (pc st)[b := 3],
            trace := trace st @ [InitDone b 1]\<rparr>"
          using b N p2 c1 by (simp add: grid_reduce_atomic_step_def Let_def atomicAdd_def)
        have none: "filter ?P ((pc st)[b := 3]) = []"
        proof (rule filter_none)
          fix i assume "i < length ((pc st)[b := 3])"
          then have i: "i < ?N" using len by simp
          show "\<not> 6 \<le> (pc st)[b := 3] ! i" using le3 [OF i] nth' [OF i] by simp
        qed
        show ?thesis
        proof (rule atomic_invI [where cur = cur and spun = spun])
          show "length (pc ?st') = ?N" "0 < length (device_mem ?st')"
            using len dm by (simp_all add: st')
          show "replay comb identity ?agg (trace ?st') = Some (cur, spun)"
            using rp cur by (simp add: st' replay_snoc)
        next
          fix b' assume "b' < ?N" "4 \<le> pc ?st' ! b'"
          then show "b' \<in> set spun" using le3 [of b'] nth' by (simp add: st' split: if_splits)
        next
          have "\<forall>b' < ?N. pc ?st' ! b' = 0 \<or> 3 \<le> pc ?st' ! b'"
          proof (intro allI impI)
            fix b' assume b': "b' < ?N"
            show "pc ?st' ! b' = 0 \<or> 3 \<le> pc ?st' ! b'"
            proof (cases "b' = b")
              case True
              then show ?thesis using bl by (simp add: st')
            next
              case False
              with others_b [OF b' False] show ?thesis by (auto simp: st')
            qed
          qed
          then have "atomic_phase_after vals ?st' cur"
            unfolding atomic_phase_after_def using cur N none by (auto simp: st')
          then show "atomic_phase_before vals ?st' cur \<or> (\<exists>w. atomic_phase_init vals ?st' cur w) \<or>
             atomic_phase_after vals ?st' cur" by blast
        qed
      qed
    next
      case False
      from others [OF b False] show ?thesis
      proof
        assume p0: "pc st ! b = 0"
        have st': "?st' = st\<lparr>pc := (pc st)[b := 3]\<rparr>"
          using b N p0 nz c1 by (simp add: grid_reduce_atomic_step_def Let_def atomicCAS_def)
        show ?thesis
        proof (rule atomic_invI [where cur = cur and spun = spun])
          show "length (pc ?st') = ?N" "0 < length (device_mem ?st')"
            using len dm by (simp_all add: st')
          show "replay comb identity ?agg (trace ?st') = Some (cur, spun)" using rp by (simp add: st')
        next
          fix b' assume "b' < ?N" "4 \<le> pc ?st' ! b'"
          then show "b' \<in> set spun" using le3 [of b'] nth' by (simp add: st' split: if_splits)
        next
          have "atomic_phase_init vals ?st' cur w"
            unfolding atomic_phase_init_def using w False c1 pw others nth' by (auto simp: st')
          then show "atomic_phase_before vals ?st' cur \<or> (\<exists>w. atomic_phase_init vals ?st' cur w) \<or>
             atomic_phase_after vals ?st' cur" by blast
        qed
      next
        assume p3: "pc st ! b = 3"
        have "?st' = st"
          using b N p3 nz c1 by (simp add: grid_reduce_atomic_step_def Let_def)
        with inv show ?thesis by simp
      qed
    qed
  next
    case C
    then have pcs: "\<And>b. b < ?N \<Longrightarrow> pc st ! b = 0 \<or> 3 \<le> pc st ! b"
      and cur: "cur = Some (device_mem st ! 0)"
      and cnt: "counter st = (if ?d = ?N then 0 else 2 + ?d)"
      by (simp_all add: atomic_phase_after_def)
    have keep: "atomic_inv comb identity WS sd vals ?st'"
      if st': "?st' = st\<lparr>pc := (pc st)[b := v], trace := tr\<rparr>"
        and tr: "replay comb identity ?agg tr = Some (cur, spun')"
        and spun': "set spun \<subseteq> set spun'" "4 \<le> v \<Longrightarrow> b \<in> set spun'"
        and v: "v = 0 \<or> 3 \<le> v" and same: "?P v = ?P (pc st ! b)"
      for v tr spun'
    proof (rule atomic_invI [where cur = cur and spun = spun'])
      show "length (pc ?st') = ?N" "0 < length (device_mem ?st')"
        using len dm by (simp_all add: st')
      show "replay comb identity ?agg (trace ?st') = Some (cur, spun')" using tr by (simp add: st')
    next
      fix b' assume b': "b' < ?N" and 4: "4 \<le> pc ?st' ! b'"
      show "b' \<in> set spun'"
      proof (cases "b' = b")
        case True
        with 4 bl have "4 \<le> v" by (simp add: st')
        with spun'(2) True show ?thesis by simp
      next
        case False
        with 4 have "4 \<le> pc st ! b'" by (simp add: st')
        from sp [OF b' this] spun'(1) show ?thesis by blast
      qed
    next
      have d': "length (filter ?P (pc ?st')) = ?d"
        using upd [of v] same by (simp add: st')
      have "\<forall>b' < ?N. pc ?st' ! b' = 0 \<or> 3 \<le> pc ?st' ! b'"
      proof (intro allI impI)
        fix b' assume b': "b' < ?N"
        show "pc ?st' ! b' = 0 \<or> 3 \<le> pc ?st' ! b'"
          using pcs [OF b'] v nth' [OF b'] by (simp add: st')
      qed
      then have "atomic_phase_after vals ?st' cur"
        unfolding atomic_phase_after_def d' using cur cnt by (simp add: st')
      then show "atomic_phase_before vals ?st' cur \<or> (\<exists>w. atomic_phase_init vals ?st' cur w) \<or>
         atomic_phase_after vals ?st' cur" by blast
    qed
    have "pc st ! b = 0 \<or> pc st ! b = 3 \<or> pc st ! b = 4 \<or> pc st ! b = 5 \<or>
        pc st ! b = 6 \<or> 7 \<le> pc st ! b" using pcs [OF b] by arith
    then consider (p0) "pc st ! b = 0" | (p3) "pc st ! b = 3" | (p4) "pc st ! b = 4"
      | (p5) "pc st ! b = 5" | (p6) "pc st ! b = 6" | (p7) "7 \<le> pc st ! b"
      by (elim disjE) simp_all
    then show ?thesis
    proof cases
      case p0
      have "?d < ?N" using dN p0 by simp
      then have c2: "counter st \<noteq> 0" using cnt by simp
      have st': "?st' = st\<lparr>pc := (pc st)[b := 3], trace := trace st\<rparr>"
        using b N p0 nz c2 by (simp add: grid_reduce_atomic_step_def Let_def atomicCAS_def)
      show ?thesis using p0 by (intro keep [OF st' rp]) simp_all
    next
      case p3
      have "?d < ?N" using dN p3 by simp
      then have c2: "2 \<le> counter st" using cnt by simp
      have st': "?st' = st\<lparr>pc := (pc st)[b := 4],
          trace := trace st @ [SpinExit b (counter st)]\<rparr>"
        using b N p3 nz c2 by (simp add: grid_reduce_atomic_step_def Let_def)
      have tr: "replay comb identity ?agg (trace st @ [SpinExit b (counter st)])
          = Some (cur, b # spun)"
        using rp c2 by (simp add: replay_snoc)
      show ?thesis using p3 by (intro keep [OF st' tr]) auto
    next
      case p4
      have bs: "b \<in> set spun" using sp [OF b] p4 by simp
      have st': "?st' = st\<lparr>device_mem := (device_mem st)[0 := comb (device_mem st ! 0) (?agg b)],
          pc := (pc st)[b := 5],
          trace := trace st @ [AtomicCombine b (device_mem st ! 0)]\<rparr>"
        using b N p4 by (simp add: grid_reduce_atomic_step_def Let_def)
      have tr: "replay comb identity ?agg (trace ?st')
          = Some (Some (comb (device_mem st ! 0) (?agg b)), spun)"
        using rp cur bs by (simp add: st' replay_snoc)
      have d': "length (filter ?P (pc ?st')) = ?d"
        using upd [of 5] p4 by (simp add: st')
      show ?thesis
      proof (rule atomic_invI [where cur = "Some (comb (device_mem st ! 0) (?agg b))" and spun = spun])
        show "length (pc ?st') = ?N" "0 < length (device_mem ?st')"
          using len dm by (simp_all add: st')
        show "replay comb identity ?agg (trace ?st')
            = Some (Some (comb (device_mem st ! 0) (?agg b)), spun)" by (rule tr)
      next
        fix b' assume b': "b' < ?N" and 4: "4 \<le> pc ?st' ! b'"
        show "b' \<in> set spun"
        proof (cases "b' = b")
          case True
          with bs show ?thesis by simp
        next
          case False
          with 4 have "4 \<le> pc st ! b'" by (simp add: st')
          from sp [OF b' this] show ?thesis .
        qed
      next
        have "\<forall>b' < ?N. pc ?st' ! b' = 0 \<or> 3 \<le> pc ?st' ! b'"
        proof (intro allI impI)
          fix b' assume b': "b' < ?N"
          show "pc ?st' ! b' = 0 \<or> 3 \<le> pc ?st' ! b'"
            using pcs [OF b'] nth' [OF b'] by (simp add: st')
        qed
        then have "atomic_phase_after vals ?st' (Some (comb (device_mem st ! 0) (?agg b)))"
          unfolding atomic_phase_after_def d' using cnt dm by (simp add: st')
        then show "atomic_phase_before vals ?st' (Some (comb (device_mem st ! 0) (?agg b))) \<or>
           (\<exists>w. atomic_phase_init vals ?st' (Some (comb (device_mem st ! 0) (?agg b))) w) \<or>
           atomic_phase_after vals ?st' (Some (comb (device_mem st ! 0) (?agg b)))" by blast
      qed
    next
      case p5
      have dlt: "?d < ?N" using dN p5 by simp
      then have c: "counter st = 2 + ?d" using cnt by simp
      have st': "?st' = st\<lparr>counter := (if ?d + 1 = ?N then 0 else 2 + (?d + 1)),
          lastBlock := (lastBlock st)[b := (?d + 1 = ?N)], pc := (pc st)[b := 6]\<rparr>"
        using b N p5 c dlt by (auto simp: grid_reduce_atomic_step_def Let_def atomicInc_def)
      have d': "length (filter ?P (pc ?st')) = ?d + 1"
        using upd [of 6] p5 by (simp add: st')
      show ?thesis
      proof (rule atomic_invI [where cur = cur and spun = spun])
        show "length (pc ?st') = ?N" "0 < length (device_mem ?st')"
          using len dm by (simp_all add: st')
        show "replay comb identity ?agg (trace ?st') = Some (cur, spun)" using rp by (simp add: st')
      next
        fix b' assume b': "b' < ?N" and 4: "4 \<le> pc ?st' ! b'"
        show "b' \<in> set spun"
        proof (cases "b' = b")
          case True
          with sp [OF b] p5 show ?thesis by simp
        next
          case False
          with 4 have "4 \<le> pc st ! b'" by (simp add: st')
          from sp [OF b' this] show ?thesis .
        qed
      next
        have "\<forall>b' < ?N. pc ?st' ! b' = 0 \<or> 3 \<le> pc ?st' ! b'"
        proof (intro allI impI)
          fix b' assume b': "b' < ?N"
          show "pc ?st' ! b' = 0 \<or> 3 \<le> pc ?st' ! b'"
            using pcs [OF b'] nth' [OF b'] by (simp add: st')
        qed
        then have "atomic_phase_after vals ?st' cur"
          unfolding atomic_phase_after_def d' using cur by (simp add: st')
        then show "atomic_phase_before vals ?st' cur \<or> (\<exists>w. atomic_phase_init vals ?st' cur w) \<or>
           atomic_phase_after vals ?st' cur" by blast
      qed
    next
      case p6
      have st': "?st' = st\<lparr>slot := (if lastBlock st ! b then slot st @ [device_mem st ! 0] else slot st),
          pc := (pc st)[b := 7]\<rparr>"
        using b N p6 by (simp add: grid_reduce_atomic_step_def Let_def)
      have d': "length (filter ?P (pc ?st')) = ?d"
        using upd [of 7] p6 by (simp add: st')
      show ?thesis
      proof (rule atomic_invI [where cur = cur and spun = spun])
        show "length (pc ?st') = ?N" "0 < length (device_mem ?st')"
          using len dm by (simp_all add: st')
        show "replay comb identity ?agg (trace ?st') = Some (cur, spun)" using rp by (simp add: st')
      next
        fix b' assume b': "b' < ?N" and 4: "4 \<le> pc ?st' ! b'"
        show "b' \<in> set spun"
        proof (cases "b' = b")
          case True
          with sp [OF b] p6 show ?thesis by simp
        next
          case False
          with 4 have "4 \<le> pc st ! b'" by (simp add: st')
          from sp [OF b' this] show ?thesis .
        qed
      next
        have "\<forall>b' < ?N. pc ?st' ! b' = 0 \<or> 3 \<le> pc ?st' ! b'"
        proof (intro allI impI)
          fix b' assume b': "b' < ?N"
          show "pc ?st' ! b' = 0 \<or> 3 \<le> pc ?st' ! b'"
            using pcs [OF b'] nth' [OF b'] by (simp add: st')
        qed
        then have "atomic_phase_after vals ?st' cur"
          unfolding atomic_phase_after_def d' using cur cnt by (simp add: st')
        then show "atomic_phase_before vals ?st' cur \<or> (\<exists>w. atomic_phase_init vals ?st' cur w) \<or>
           atomic_phase_after vals ?st' cur" by blast
      qed
    next
      case p7
      then have "?st' = st" using b N by (simp add: grid_reduce_atomic_step_def Let_def)
      with inv show ?thesis by simp
    qed
  qed
qed

lemma replay_fold_None [simp]: "fold (replay_event comb identity agg) es None = None"
  by (induction es) simp_all




lemma atomic_inv_run:
  assumes "\<not> bitwize_zero (repr identity)" "1 < length vals"
  shows "atomic_inv comb identity WS sd vals st \<Longrightarrow>
     atomic_inv comb identity WS sd vals
       (grid_reduce_atomic_run comb identity repr WS sd vals sched st)"
  unfolding grid_reduce_atomic_run_def
  by (induction sched arbitrary: st)
    (simp_all add: atomic_inv_step [where repr = repr and identity = identity, OF assms])

lemma atomic_inv_init:
  "atomic_inv comb identity WS sd vals (atomic_init zero (length vals))"
  by (simp add: atomic_inv_def atomic_init_def replay_def atomic_phase_before_def)



lemma atomic_inv_counter:
  assumes inv: "atomic_inv comb identity WS sd vals st" and b: "b < length vals"
    and pc4: "4 \<le> pc st ! b"
  shows "counter st =
     (if length (filter (\<lambda>p. 6 \<le> p) (pc st)) = length vals then 0
      else 2 + length (filter (\<lambda>p. 6 \<le> p) (pc st)))"
proof -
  from inv obtain cur where ph: "atomic_phase_before vals st cur \<or>
      (\<exists>w. atomic_phase_init vals st cur w) \<or> atomic_phase_after vals st cur"
    unfolding atomic_inv_def by blast
  have "\<not> atomic_phase_before vals st cur"
    using b pc4 by (auto simp: atomic_phase_before_def)
  moreover have "\<not> atomic_phase_init vals st cur w" for w
  proof
    assume i: "atomic_phase_init vals st cur w"
    then have "pc st ! w = 1 \<or> pc st ! w = 2"
      and "\<forall>b < length vals. b \<noteq> w \<longrightarrow> pc st ! b = 0 \<or> pc st ! b = 3"
      by (auto simp: atomic_phase_init_def)
    with b pc4 show False by (cases "b = w") auto
  qed
  ultimately have "atomic_phase_after vals st cur" using ph by blast
  then show ?thesis by (simp add: atomic_phase_after_def)
qed

lemma atomic_step_early:
  assumes "b < length vals" "1 < length vals" "pc st ! b < 5"
  shows "\<exists>v < 6. pc (grid_reduce_atomic_step comb identity repr WS sd vals b st) = (pc st)[b := v]"
    and "lastBlock (grid_reduce_atomic_step comb identity repr WS sd vals b st) = lastBlock st"
    and "slot (grid_reduce_atomic_step comb identity repr WS sd vals b st) = slot st"
proof -
  let ?st' = "grid_reduce_atomic_step comb identity repr WS sd vals b st"
  from assms(3) have "pc st ! b = 0 \<or> pc st ! b = 1 \<or> pc st ! b = 2 \<or> pc st ! b = 3 \<or> pc st ! b = 4"
    by arith
  then consider (p0) "pc st ! b = 0" | (p1) "pc st ! b = 1" | (p2) "pc st ! b = 2"
    | (p3) "pc st ! b = 3" | (p4) "pc st ! b = 4"
    by (elim disjE) simp_all
  then have "(\<exists>v < 6. pc ?st' = (pc st)[b := v]) \<and> lastBlock ?st' = lastBlock st \<and> slot ?st' = slot st"
  proof cases
    case p0
    have "pc ?st' = (pc st)[b := 1] \<or> pc ?st' = (pc st)[b := 3]"
      using assms(1,2) p0 by (simp add: grid_reduce_atomic_step_def Let_def atomicCAS_def)
    moreover have "lastBlock ?st' = lastBlock st \<and> slot ?st' = slot st"
      using assms(1,2) p0 by (simp add: grid_reduce_atomic_step_def Let_def atomicCAS_def)
    moreover have "(1::nat) < 6" "(3::nat) < 6" by simp_all
    ultimately show ?thesis by blast
  next
    case p1
    have "pc ?st' = (pc st)[b := 2] \<and> lastBlock ?st' = lastBlock st \<and> slot ?st' = slot st"
      using assms(1,2) p1 by (simp add: grid_reduce_atomic_step_def Let_def)
    moreover have "(2::nat) < 6" by simp
    ultimately show ?thesis by blast
  next
    case p2
    have "pc ?st' = (pc st)[b := 3] \<and> lastBlock ?st' = lastBlock st \<and> slot ?st' = slot st"
      using assms(1,2) p2 by (simp add: grid_reduce_atomic_step_def Let_def)
    moreover have "(3::nat) < 6" by simp
    ultimately show ?thesis by blast
  next
    case p3
    have same: "(pc st)[b := 3] = pc st" using list_update_id [of "pc st" b] p3 by simp
    have "pc ?st' = (pc st)[b := 3] \<or> pc ?st' = (pc st)[b := 4]"
      unfolding same using assms(1,2) p3 by (auto simp: grid_reduce_atomic_step_def Let_def)
    moreover have "lastBlock ?st' = lastBlock st \<and> slot ?st' = slot st"
      using assms(1,2) p3 by (simp add: grid_reduce_atomic_step_def Let_def)
    moreover have "(3::nat) < 6" "(4::nat) < 6" by simp_all
    ultimately show ?thesis by blast
  next
    case p4
    have "pc ?st' = (pc st)[b := 5] \<and> lastBlock ?st' = lastBlock st \<and> slot ?st' = slot st"
      using assms(1,2) p4 by (simp add: grid_reduce_atomic_step_def Let_def)
    moreover have "(5::nat) < 6" by simp
    ultimately show ?thesis by blast
  qed
  then show "\<exists>v < 6. pc ?st' = (pc st)[b := v]" "lastBlock ?st' = lastBlock st" "slot ?st' = slot st"
    by blast+
qed

lemma atomic_last_invI:
  assumes "length (lastBlock st) = length vals"
    and "\<And>b. b < length vals \<Longrightarrow> lastBlock st ! b \<Longrightarrow>
        6 \<le> pc st ! b \<and> length (filter (\<lambda>p. 6 \<le> p) (pc st)) = length vals"
    and "length (filter (\<lambda>p. 6 \<le> p) (pc st)) = length vals \<Longrightarrow>
        \<exists>b < length vals. lastBlock st ! b \<and> (\<forall>b' < length vals. lastBlock st ! b' \<longrightarrow> b' = b)"
    and "\<And>b. b < length vals \<Longrightarrow> lastBlock st ! b \<Longrightarrow> pc st ! b = 7 \<Longrightarrow>
        length (slot st) = 1"
    and "(\<forall>b < length vals. \<not> (lastBlock st ! b \<and> pc st ! b = 7)) \<Longrightarrow> slot st = []"
  shows "atomic_last_inv vals st"
  unfolding atomic_last_inv_def using assms by simp

lemma atomic_last_invD:
  assumes "atomic_last_inv vals st"
  shows "length (lastBlock st) = length vals"
    and "\<And>b. b < length vals \<Longrightarrow> lastBlock st ! b \<Longrightarrow>
        6 \<le> pc st ! b \<and> length (filter (\<lambda>p. 6 \<le> p) (pc st)) = length vals"
    and "length (filter (\<lambda>p. 6 \<le> p) (pc st)) = length vals \<Longrightarrow>
        \<exists>b < length vals. lastBlock st ! b \<and> (\<forall>b' < length vals. lastBlock st ! b' \<longrightarrow> b' = b)"
    and "\<And>b. b < length vals \<Longrightarrow> lastBlock st ! b \<Longrightarrow> pc st ! b = 7 \<Longrightarrow>
        length (slot st) = 1"
    and "(\<forall>b < length vals. \<not> (lastBlock st ! b \<and> pc st ! b = 7)) \<Longrightarrow> slot st = []"
  using assms unfolding atomic_last_inv_def by simp_all

lemma atomic_last_inv_step:
  assumes nz: "\<not> bitwize_zero (repr identity)" and N: "1 < length vals"
    and inv: "atomic_inv comb identity WS sd vals st"
    and linv: "atomic_last_inv vals st"
  shows "atomic_last_inv vals (grid_reduce_atomic_step comb identity repr WS sd vals b st)"
proof (cases "b < length vals")
  case False
  with linv show ?thesis by (simp add: grid_reduce_atomic_step_def Let_def)
next
  case b: True
  let ?N = "length vals"
  let ?P = "\<lambda>p::nat. 6 \<le> p"
  let ?d = "length (filter ?P (pc st))"
  let ?st' = "grid_reduce_atomic_step comb identity repr WS sd vals b st"
  from inv have len: "length (pc st) = ?N" by (simp add: atomic_inv_def)
  note llen = atomic_last_invD(1) [OF linv]
  note last = atomic_last_invD(2) [OF linv]
  note uniq = atomic_last_invD(3) [OF linv]
  note written = atomic_last_invD(4) [OF linv]
  note unwritten = atomic_last_invD(5) [OF linv]
  have bl: "b < length (pc st)" "b < length (lastBlock st)" using b len llen by simp_all
  have upd: "length (filter ?P ((pc st)[b := v])) + (if ?P (pc st ! b) then 1 else 0)
      = ?d + (if ?P v then 1 else 0)" for v
    by (rule filter_update_count [OF bl(1)])
  have dN: "?d < ?N" if "\<not> ?P (pc st ! b)"
  proof -
    have "pc st ! b \<in> set (pc st)" using bl by simp
    from length_filter_less [of "pc st ! b" "pc st" ?P, OF this that] show ?thesis using len by simp
  qed
  have "pc st ! b < 5 \<or> pc st ! b = 5 \<or> pc st ! b = 6 \<or> 7 \<le> pc st ! b" by arith
  then consider (early) "pc st ! b < 5" | (p5) "pc st ! b = 5" | (p6) "pc st ! b = 6"
    | (p7) "7 \<le> pc st ! b"
    by (elim disjE) simp_all
  then show ?thesis
  proof cases
    case early
    from atomic_step_early [OF b N early, of comb identity repr WS sd]
    obtain v where v: "v < 6" and pcs: "pc ?st' = (pc st)[b := v]"
      and lb: "lastBlock ?st' = lastBlock st" and sl: "slot ?st' = slot st" by blast
    have d': "length (filter ?P (pc ?st')) = ?d" using upd [of v] v early by (simp add: pcs)
    have nl: "\<not> lastBlock st ! b" using last [OF b] early by auto
    have pc_other: "\<And>b'. b' \<noteq> b \<Longrightarrow> pc ?st' ! b' = pc st ! b'" by (simp add: pcs)
    show ?thesis
    proof (rule atomic_last_invI)
      show "length (lastBlock ?st') = ?N" using llen by (simp add: lb)
    next
      fix b' assume b': "b' < ?N" and l: "lastBlock ?st' ! b'"
      then have l0: "lastBlock st ! b'" by (simp add: lb)
      with nl have "b' \<noteq> b" by auto
      with last [OF b' l0] pc_other [of b']
      show "6 \<le> pc ?st' ! b' \<and> length (filter ?P (pc ?st')) = ?N" by (simp add: d')
    next
      assume "length (filter ?P (pc ?st')) = ?N"
      then have "?d = ?N" by (simp add: d')
      from uniq [OF this]
      show "\<exists>b < ?N. lastBlock ?st' ! b \<and> (\<forall>b' < ?N. lastBlock ?st' ! b' \<longrightarrow> b' = b)"
        by (simp add: lb)
    next
      fix b' assume b': "b' < ?N" and l: "lastBlock ?st' ! b'" and p: "pc ?st' ! b' = 7"
      from l have l0: "lastBlock st ! b'" by (simp add: lb)
      with nl have "b' \<noteq> b" by auto
      with p pc_other [of b'] have "pc st ! b' = 7" by simp
      from written [OF b' l0 this] show "length (slot ?st') = 1" by (simp add: sl)
    next
      assume a: "\<forall>b' < ?N. \<not> (lastBlock ?st' ! b' \<and> pc ?st' ! b' = 7)"
      have "\<forall>b' < ?N. \<not> (lastBlock st ! b' \<and> pc st ! b' = 7)"
      proof (intro allI impI)
        fix b' assume b': "b' < ?N"
        show "\<not> (lastBlock st ! b' \<and> pc st ! b' = 7)"
          using a b' nl pc_other [of b'] by (cases "b' = b") (auto simp: lb)
      qed
      from unwritten [OF this] show "slot ?st' = []" by (simp add: sl)
    qed
  next
    case p5
    have dlt: "?d < ?N" using dN p5 by simp
    have c: "counter st = 2 + ?d"
      using atomic_inv_counter [OF inv b] p5 dlt by simp
    have nobody: "\<And>b'. b' < ?N \<Longrightarrow> \<not> lastBlock st ! b'" using last dlt by auto
    have st': "?st' = st\<lparr>counter := (if ?d + 1 = ?N then 0 else 2 + (?d + 1)),
        lastBlock := (lastBlock st)[b := (?d + 1 = ?N)], pc := (pc st)[b := 6]\<rparr>"
      using b N p5 c dlt by (auto simp: grid_reduce_atomic_step_def Let_def atomicInc_def)
    have f: "pc ?st' = (pc st)[b := 6]" "lastBlock ?st' = (lastBlock st)[b := (?d + 1 = ?N)]"
      "slot ?st' = slot st"
      by (simp_all add: st')
    have d': "length (filter ?P (pc ?st')) = ?d + 1" using upd [of 6] p5 by (simp add: f)
    have pc_b: "pc ?st' ! b = 6" using bl by (simp add: f)
    have last': "\<And>b'. b' < ?N \<Longrightarrow> lastBlock ?st' ! b' \<longleftrightarrow> b' = b \<and> ?d + 1 = ?N"
      using nobody bl by (auto simp: f nth_list_update)
    show ?thesis
    proof (rule atomic_last_invI)
      show "length (lastBlock ?st') = ?N" using llen by (simp add: f)
    next
      fix b' assume b': "b' < ?N" and l: "lastBlock ?st' ! b'"
      with last' [OF b'] have "b' = b" "?d + 1 = ?N" by simp_all
      with pc_b show "6 \<le> pc ?st' ! b' \<and> length (filter ?P (pc ?st')) = ?N" by (simp add: d')
    next
      assume "length (filter ?P (pc ?st')) = ?N"
      then have "?d + 1 = ?N" by (simp add: d')
      with last' b
      show "\<exists>b < ?N. lastBlock ?st' ! b \<and> (\<forall>b' < ?N. lastBlock ?st' ! b' \<longrightarrow> b' = b)"
        by blast
    next
      fix b' assume b': "b' < ?N" and l: "lastBlock ?st' ! b'" and p: "pc ?st' ! b' = 7"
      from l last' [OF b'] have "b' = b" by simp
      with p pc_b show "length (slot ?st') = 1" by simp
    next
      have "\<forall>b' < ?N. \<not> (lastBlock st ! b' \<and> pc st ! b' = 7)" using nobody by simp
      from unwritten [OF this] show "slot ?st' = []" by (simp add: f)
    qed
  next
    case p6
    have st': "?st' = st\<lparr>slot := (if lastBlock st ! b then slot st @ [device_mem st ! 0] else slot st),
        pc := (pc st)[b := 7]\<rparr>"
      using b N p6 by (simp add: grid_reduce_atomic_step_def Let_def)
    have f: "pc ?st' = (pc st)[b := 7]" "lastBlock ?st' = lastBlock st"
      "slot ?st' = (if lastBlock st ! b then slot st @ [device_mem st ! 0] else slot st)"
      by (simp_all add: st')
    have d': "length (filter ?P (pc ?st')) = ?d" using upd [of 7] p6 by (simp add: f)
    have pc_b: "pc ?st' ! b = 7" using bl by (simp add: f)
    have pc_other: "\<And>b'. b' \<noteq> b \<Longrightarrow> pc ?st' ! b' = pc st ! b'" by (simp add: f)
    have pc6: "\<And>b'. 6 \<le> pc st ! b' \<Longrightarrow> 6 \<le> pc ?st' ! b'"
      using pc_b pc_other by (metis eval_nat_numeral(3) le_SucI order_refl)
    show ?thesis
    proof (rule atomic_last_invI)
      show "length (lastBlock ?st') = ?N" using llen by (simp add: f)
    next
      fix b' assume b': "b' < ?N" and l: "lastBlock ?st' ! b'"
      then have l0: "lastBlock st ! b'" by (simp add: f)
      from last [OF b' l0] pc6 [of b']
      show "6 \<le> pc ?st' ! b' \<and> length (filter ?P (pc ?st')) = ?N" by (simp add: d')
    next
      assume "length (filter ?P (pc ?st')) = ?N"
      then have "?d = ?N" by (simp add: d')
      from uniq [OF this]
      show "\<exists>b < ?N. lastBlock ?st' ! b \<and> (\<forall>b' < ?N. lastBlock ?st' ! b' \<longrightarrow> b' = b)"
        by (simp add: f)
    next
      fix b' assume b': "b' < ?N" and l: "lastBlock ?st' ! b'" and p: "pc ?st' ! b' = 7"
      from l have l0: "lastBlock st ! b'" by (simp add: f)
      show "length (slot ?st') = 1"
      proof (cases "lastBlock st ! b")
        case True
        from last [OF b True] have "?d = ?N" by simp
        from uniq [OF this] True b have only: "\<And>b'. b' < ?N \<Longrightarrow> lastBlock st ! b' \<Longrightarrow> b' = b"
          by blast
        have "\<forall>b' < ?N. \<not> (lastBlock st ! b' \<and> pc st ! b' = 7)" using only p6 by auto
        from unwritten [OF this] True show ?thesis by (simp add: f)
      next
        case False
        with l0 have "b' \<noteq> b" by auto
        with p pc_other [of b'] have "pc st ! b' = 7" by simp
        from written [OF b' l0 this] False show ?thesis by (simp add: f)
      qed
    next
      assume a: "\<forall>b' < ?N. \<not> (lastBlock ?st' ! b' \<and> pc ?st' ! b' = 7)"
      with b pc_b have nl: "\<not> lastBlock st ! b" by (auto simp: f)
      have "\<forall>b' < ?N. \<not> (lastBlock st ! b' \<and> pc st ! b' = 7)"
      proof (intro allI impI)
        fix b' assume b': "b' < ?N"
        show "\<not> (lastBlock st ! b' \<and> pc st ! b' = 7)"
          using a b' nl pc_other [of b'] by (cases "b' = b") (auto simp: f)
      qed
      from unwritten [OF this] nl show "slot ?st' = []" by (simp add: f)
    qed
  next
    case p7
    then have "?st' = st" using b N by (simp add: grid_reduce_atomic_step_def Let_def)
    with linv show ?thesis by simp
  qed
qed

lemma atomic_both_inv_run:
  assumes nz: "\<not> bitwize_zero (repr identity)" and N: "1 < length vals"
  shows "atomic_inv comb identity WS sd vals st \<Longrightarrow> atomic_last_inv vals st \<Longrightarrow>
     atomic_last_inv vals (grid_reduce_atomic_run comb identity repr WS sd vals sched st)"
  unfolding grid_reduce_atomic_run_def
proof (induction sched arbitrary: st)
  case Nil
  then show ?case by simp
next
  case (Cons b sched)
  have "atomic_inv comb identity WS sd vals (grid_reduce_atomic_step comb identity repr WS sd vals b st)"
    by (rule atomic_inv_step [where repr = repr and identity = identity, OF nz N Cons.prems(1)])
  moreover have "atomic_last_inv vals (grid_reduce_atomic_step comb identity repr WS sd vals b st)"
    by (rule atomic_last_inv_step [where repr = repr and identity = identity,
          OF nz N Cons.prems(1) Cons.prems(2)])
  ultimately show ?case using Cons.IH by simp
qed

text \<open>
  With an identity that is not bitwise zero the atomic variant does select a last
  block: when a launch of more than one block has completed, the counter is back at
  zero, exactly one block is last and the slot has been written exactly once.
\<close>

lemma atomic_nonzero_identity_one_last:
  assumes nz: "\<not> bitwize_zero (repr identity)" and N: "1 < length vals"
    and fin: "atomic_done (length vals)
      (grid_reduce_atomic_run comb identity repr WS sd vals sched (atomic_init zero (length vals)))"
  shows "counter (grid_reduce_atomic_run comb identity repr WS sd vals sched
            (atomic_init zero (length vals))) = 0 \<and>
     (\<exists>b < length vals.
        lastBlock (grid_reduce_atomic_run comb identity repr WS sd vals sched
            (atomic_init zero (length vals))) ! b \<and>
        (\<forall>b' < length vals.
           lastBlock (grid_reduce_atomic_run comb identity repr WS sd vals sched
              (atomic_init zero (length vals))) ! b' \<longrightarrow> b' = b)) \<and>
     length (slot (grid_reduce_atomic_run comb identity repr WS sd vals sched
            (atomic_init zero (length vals)))) = 1"
proof -
  let ?N = "length vals"
  let ?st = "grid_reduce_atomic_run comb identity repr WS sd vals sched (atomic_init zero ?N)"
  have inv: "atomic_inv comb identity WS sd vals ?st"
    by (rule atomic_inv_run [where repr = repr and identity = identity, OF nz N atomic_inv_init])
  have "atomic_last_inv vals (atomic_init zero ?N)"
    using N by (auto simp: atomic_last_inv_def atomic_init_def)
  then have linv: "atomic_last_inv vals ?st"
    by (rule atomic_both_inv_run [where repr = repr and identity = identity,
          OF nz N atomic_inv_init])
  from inv have len: "length (pc ?st) = ?N" by (simp add: atomic_inv_def)
  from fin have pc7: "\<And>b. b < ?N \<Longrightarrow> pc ?st ! b = 7" by (simp add: atomic_done_def)
  then have "\<forall>i < length (pc ?st). 6 \<le> pc ?st ! i" using len by simp
  then have dN: "length (filter (\<lambda>p. 6 \<le> p) (pc ?st)) = ?N"
    using filter_all_length [of "\<lambda>p. 6 \<le> p" "pc ?st"] len by simp
  have "0 < ?N" using N by (cases vals) simp_all
  from atomic_inv_counter [OF inv this] pc7 [OF this] dN have c0: "counter ?st = 0" by simp
  from atomic_last_invD(3) [OF linv dN] obtain b where b: "b < ?N" "lastBlock ?st ! b"
    "\<forall>b' < ?N. lastBlock ?st ! b' \<longrightarrow> b' = b" by blast
  from atomic_last_invD(4) [OF linv b(1,2) pc7 [OF b(1)]] b c0 show ?thesis by blast
qed

section \<open>Properties of the pinned tally\<close>

lemma for_each_value_end [simp]: "for_each_value body (m_sn, []) s = Some s"
  by (subst for_each_value.simps) (simp add: tally_end_def)

lemma for_each_value_nodes:
  "ns \<noteq> [] \<Longrightarrow> \<forall>x \<in> set rest. node_list x \<noteq> [] \<Longrightarrow>
   for_each_value body (sn # rest, ns) s = Some (fold body (ns @ concat (map node_list rest)) s)"
proof (induction rest arbitrary: sn ns s)
  case Nil
  then show ?case
  proof (induction ns arbitrary: s)
    case Nil then show ?case by simp
  next
    case (Cons n ns)
    show ?case
    proof (cases ns)
      case Nil
      then show ?thesis
        by (subst for_each_value.simps) (simp add: tally_end_def)
    next
      case (Cons n' ns')
      with Cons.IH [of "body n s"] show ?thesis
        by (subst for_each_value.simps) (simp add: tally_end_def)
    qed
  qed
next
  case (Cons sn' rest)
  from Cons.prems(2) have ne: "node_list sn' \<noteq> []" and rest: "\<forall>x \<in> set rest. node_list x \<noteq> []"
    by simp_all
  note outer = Cons.IH [OF ne rest]
  from Cons.prems(1) show ?case
  proof (induction ns arbitrary: s)
    case Nil then show ?case by simp
  next
    case (Cons n ns)
    show ?case
    proof (cases ns)
      case Nil
      then show ?thesis
        using outer [of sn' "body n s"] ne
        by (subst for_each_value.simps) (simp add: tally_end_def)
    next
      case (Cons n' ns')
      with Cons.IH [of "body n s"] show ?thesis
        by (subst for_each_value.simps) (simp add: tally_end_def)
    qed
  qed
qed

lemma for_each_value_begin:
  assumes "\<forall>sn \<in> set t. node_list sn \<noteq> []"
  shows "for_each_value body (tally_begin t) s = Some (fold body (concat (map node_list t)) s)"
proof (cases t)
  case Nil
  then show ?thesis by (simp add: tally_begin_def)
next
  case (Cons sn rest)
  with assms for_each_value_nodes [of "node_list sn" rest body sn s] show ?thesis
    by (simp add: tally_begin_def)
qed

lemma add_to_stream_None: "add_to_stream s n t = None \<longleftrightarrow> s \<notin> stream ` set t"
  by (induction t) auto

lemma add_to_stream_Some:
  "add_to_stream s n t = Some t' \<Longrightarrow>
     map stream t' = map stream t \<and>
     mset (concat (map node_list t')) = add_mset n (mset (concat (map node_list t))) \<and>
     ((\<forall>sn \<in> set t. node_list sn \<noteq> []) \<longrightarrow> (\<forall>sn \<in> set t'. node_list sn \<noteq> []))"
  by (induction t arbitrary: t') (auto split: if_splits)

lemma new_value_inv: "tally_inv t \<Longrightarrow> tally_inv (snd (new_value s n t))"
  by (auto simp: new_value_def tally_inv_def add_to_stream_None split: option.splits
      dest: add_to_stream_Some)

lemma new_value_nodes:
  "mset (concat (map node_list (snd (new_value s n t)))) = add_mset n (mset (concat (map node_list t)))"
  by (auto simp: new_value_def split: option.splits dest: add_to_stream_Some)

lemma free_list_empty: "fst (free_list t freed) = []"
  by (induction t arbitrary: freed) auto

lemma tally_reachable:
  "tally_inv t \<Longrightarrow> mset (concat (map node_list t)) = A \<Longrightarrow>
   tally_inv (fold tally_apply ops t) \<and>
   mset (concat (map node_list (fold tally_apply ops t))) = fold allocated_step ops A"
proof (induction ops arbitrary: t A)
  case Nil
  then show ?case by simp
next
  case (Cons op ops)
  show ?case
  proof (cases op)
    case (NewValue s n)
    with Cons.IH [OF new_value_inv [OF Cons.prems(1)], of s n "add_mset n A"] Cons.prems(2)
    show ?thesis by (simp add: new_value_nodes)
  next
    case FreeList
    have "tally_inv ([] :: 'a PinnedTally)" by (simp add: tally_inv_def)
    with FreeList Cons.IH [of "[]" "{#}"] show ?thesis
      by (simp add: free_list_empty)
  qed
qed

text \<open>
  C9: every tally that the constructor, \<open>new_value\<close> and \<open>free_list\<close> can produce has
  pairwise distinct streams in its stream nodes and no stream node with an empty value
  list, and the iteration over the values from \<open>begin()\<close> to \<open>end()\<close> visits exactly
  the value nodes allocated and not yet freed, each as often as it was allocated.
\<close>

theorem tally_invariant_and_iteration:
  "tally_inv (fold tally_apply ops []) \<and>
   (\<exists>visited.
      for_each_value (\<lambda>nd acc. acc @ [nd]) (tally_begin (fold tally_apply ops [])) [] = Some visited \<and>
      mset visited = fold allocated_step ops {#})"
proof -
  let ?t = "fold tally_apply ops []"
  have "tally_inv ([] :: 'a PinnedTally)" by (simp add: tally_inv_def)
  from tally_reachable [OF this, of "{#}" ops]
  have inv: "tally_inv ?t" and A: "mset (concat (map node_list ?t)) = fold allocated_step ops {#}"
    by simp_all
  have "fold (\<lambda>nd acc. acc @ [nd]) xs ys = ys @ xs" for xs ys :: "'a Node list"
    by (induction xs arbitrary: ys) auto
  with inv for_each_value_begin [of ?t "\<lambda>nd acc. acc @ [nd]" "[]"] A
  show ?thesis by (simp add: tally_inv_def)
qed

theorem tally_invariant_and_iteration_witness:
  "tally_inv (fold tally_apply
       [NewValue 1 \<lparr>node_addr = 10, node_value = (0::int)\<rparr>,
        NewValue 2 \<lparr>node_addr = 11, node_value = 0\<rparr>,
        NewValue 1 \<lparr>node_addr = 12, node_value = 0\<rparr>] []) \<and>
   for_each_value (\<lambda>nd acc. acc @ [node_addr nd])
     (tally_begin (fold tally_apply
       [NewValue 1 \<lparr>node_addr = 10, node_value = (0::int)\<rparr>,
        NewValue 2 \<lparr>node_addr = 11, node_value = 0\<rparr>,
        NewValue 1 \<lparr>node_addr = 12, node_value = 0\<rparr>] [])) [] = Some [11, 12, 10]"
  using tally_invariant_and_iteration [of
       "[NewValue 1 \<lparr>node_addr = 10, node_value = (0::int)\<rparr>,
        NewValue 2 \<lparr>node_addr = 11, node_value = 0\<rparr>,
        NewValue 1 \<lparr>node_addr = 12, node_value = 0\<rparr>]"]
  by (simp add: new_value_def tally_begin_def for_each_value.simps tally_end_def)
section \<open>Properties of the handle on the host\<close>

lemma deviceToHost_eq: "deviceToHost t log = log @ map stream t"
  by (induction t arbitrary: log) auto

lemma iter_eq_begin_end:
  "iter_eq (tally_begin t) tally_end \<longleftrightarrow> (t = [] \<or> node_list (hd t) = [])"
  by (cases t; cases "node_list (hd t)") (auto simp: tally_begin_def tally_end_def)

lemma operator_T_empty_tally:
  assumes "objs h this = Some r" "tally_or_val_ptr (val r) = Some lp" "tallies h lp = Some []"
  shows "operator_T comb this h = Some (data_value (val r), h)"
  using assms by (simp add: operator_T_def iter_eq_begin_end)

lemma read_after_construction:
  "operator_T comb this (Reduce_init this new_tally seed h)
     = Some (seed, Reduce_init this new_tally seed h) \<and>
   get comb this (Reduce_init this new_tally seed h)
     = Some (seed, Reduce_init this new_tally seed h)"
  by (simp add: get_def Reduce_init_def Reduce_Data_init_def
      operator_T_empty_tally [where lp = new_tally])

lemma unused_inv_Construct:
  assumes inv: "unused_inv identity this lp seed h"
    and q: "unused_op this (Construct x nt v) h"
  shows "unused_inv identity this lp seed (Reduce_init x nt v h)"
proof -
  from q have fx: "objs h x = None" and ft: "tallies h nt = None" by simp_all
  from inv fx have xt: "x \<noteq> this" by (auto simp: unused_inv_def)
  from inv ft have nl: "nt \<noteq> lp" by (auto simp: unused_inv_def)
  from inv xt nl show ?thesis
    by (auto simp: unused_inv_def Reduce_init_def Reduce_Data_init_def)
qed

lemma unused_inv_Copy:
  assumes inv: "unused_inv identity this lp seed h"
    and q: "unused_op this (Copy env x other) h"
    and step: "Reduce_copy_host identity env x other h = Some h'"
  shows "unused_inv identity this lp seed h'"
proof -
  from q have fx: "objs h x = None"
    and nolaunch: "\<not> (setupReducers env \<and> in_family this other h)" by simp_all
  from inv fx have xt: "x \<noteq> this" by (auto simp: unused_inv_def)
  from step obtain ob where ob: "objs h other = Some ob"
    by (auto simp: Reduce_copy_host_def split: option.splits)
  from inv have d: "parent ob \<noteq> None \<Longrightarrow> tally_or_val_ptr (val ob) = Some lp \<Longrightarrow>
      parent ob = Some this"
    using ob by (auto simp: unused_inv_def)
  show ?thesis
  proof (cases "parent ob")
    case None
    with step ob have "h' = h\<lparr>objs := (objs h)(x \<mapsto>
        \<lparr>parent = None, val = Reduce_Data_copy identity (val ob)\<rparr>)\<rparr>"
      by (simp add: Reduce_copy_host_def)
    with inv xt fx show ?thesis by (auto simp: unused_inv_def)
  next
    case (Some p)
    show ?thesis
    proof (cases "device (val ob) = None \<and> setupReducers env")
      case False
      then have "setupForDevice_host env (Reduce_Data_copy identity (val ob)) h
          = Some (False, Reduce_Data_copy identity (val ob), h)"
        by (auto simp: setupForDevice_host_def Reduce_Data_copy_def)
      with step ob Some have "h' = h\<lparr>objs := (objs h)(x \<mapsto>
          \<lparr>parent = Some p, val = Reduce_Data_copy identity (val ob)\<rparr>)\<rparr>"
        by (simp add: Reduce_copy_host_def)
      with inv xt fx d Some show ?thesis
        by (auto simp: unused_inv_def Reduce_Data_copy_def)
    next
      case True
      with nolaunch ob Some have pn: "p \<noteq> this" by (auto simp: in_family_def)
      with d Some have nlp: "tally_or_val_ptr (val ob) \<noteq> Some lp" by auto
      from True step ob Some obtain lp' t where lp': "tally_or_val_ptr (val ob) = Some lp'"
        and t: "tallies h lp' = Some t"
        by (auto simp: Reduce_copy_host_def setupForDevice_host_def Reduce_Data_copy_def
            split: option.splits)
      from nlp lp' have ne: "lp' \<noteq> lp" by simp
      obtain vp t' where nv: "new_value (currentStream env) (pinned_malloc env) t = (vp, t')"
        by (cases "new_value (currentStream env) (pinned_malloc env) t")
      from True step ob Some lp' t nv
      have "h' = h\<lparr>tallies := (tallies h)(lp' \<mapsto> t'),
          objs := (objs h)(x \<mapsto> \<lparr>parent = None,
            val = (Reduce_Data_copy identity (val ob))\<lparr>device := Some (device_malloc env),
                           device_count := Some (zeroed_malloc env),
                           tally_or_val_ptr := Some vp,
                           own_device_ptr := True\<rparr>\<rparr>)\<rparr>"
        by (simp add: Reduce_copy_host_def setupForDevice_host_def Reduce_Data_copy_def)
      with inv xt fx ne show ?thesis by (auto simp: unused_inv_def)
    qed
  qed
qed

lemma unused_inv_Combine:
  assumes inv: "unused_inv identity this lp seed h"
    and q: "unused_op this (Combine x v) h"
    and step: "Reduce_reduce comb x v h = Some h'"
  shows "unused_inv identity this lp seed h'"
proof -
  from step obtain r where r: "objs h x = Some r"
    and h': "h' = h\<lparr>objs := (objs h)(x \<mapsto>
        r\<lparr>val := (val r)\<lparr>data_value := comb (data_value (val r)) v\<rparr>\<rparr>)\<rparr>"
    by (auto simp: Reduce_reduce_def split: option.splits)
  from q r have nf: "parent r \<noteq> Some this" by (simp add: in_family_def)
  with inv r have xt: "x \<noteq> this" by (auto simp: unused_inv_def)
  from inv r nf xt show ?thesis unfolding h'
    by (auto simp: unused_inv_def)
qed

lemma unused_inv_Destroy:
  assumes idr: "\<forall>x. comb x identity = x"
    and inv: "unused_inv identity this lp seed h"
    and q: "unused_op this (Destroy x) h"
    and step: "Reduce_dtor_host comb x h = Some h'"
  shows "unused_inv identity this lp seed h'"
proof -
  from q have xt: "x \<noteq> this" and vp: "valid_parent x h" by simp_all
  from step obtain c where c: "objs h x = Some c"
    by (auto simp: Reduce_dtor_host_def split: option.splits)
  from inv obtain r where r: "objs h this = Some r" "parent r = Some this"
    "data_value (val r) = seed" "tally_or_val_ptr (val r) = Some lp"
    by (auto simp: unused_inv_def)
  show ?thesis
  proof (cases "parent c")
    case None
    with step c have "objs h' = (objs h)(x := None) \<and> tallies h' = tallies h"
      by (auto simp: Reduce_dtor_host_def split: if_splits)
    with inv xt show ?thesis by (auto simp: unused_inv_def)
  next
    case (Some p)
    show ?thesis
    proof (cases "p = x")
      case True
      from inv have "\<forall>x c. objs h x = Some c \<and> parent c \<noteq> None \<and>
          tally_or_val_ptr (val c) = Some lp \<longrightarrow> parent c = Some this"
        by (simp add: unused_inv_def)
      from this [rule_format, of x c] c Some True xt
      have nlp: "tally_or_val_ptr (val c) \<noteq> Some lp" by auto
      from True Some step c nlp
      have "objs h' = (objs h)(x := None) \<and> tallies h' lp = tallies h lp"
        by (auto simp: Reduce_dtor_host_def split: option.splits)
      with inv xt show ?thesis by (auto simp: unused_inv_def)
    next
      case False
      from vp c Some obtain po where po: "objs h p = Some po" "parent po = Some p"
        by (auto simp: valid_parent_def split: option.splits)
      from False Some step c po
      have h': "h' = h\<lparr>objs := ((objs h)(p \<mapsto>
          po\<lparr>val := (val po)\<lparr>data_value := comb (data_value (val po)) (data_value (val c))\<rparr>\<rparr>))
          (x := None)\<rparr>"
        by (simp add: Reduce_dtor_host_def Reduce_reduce_def)
      show ?thesis
      proof (cases "p = this")
        case True
        with inv c xt Some have "data_value (val c) = identity" by (auto simp: unused_inv_def)
        with idr have "po\<lparr>val := (val po)\<lparr>data_value := comb (data_value (val po)) (data_value (val c))\<rparr>\<rparr>
            = po" by simp
        with h' have "h' = h\<lparr>objs := ((objs h)(p \<mapsto> po))(x := None)\<rparr>" by simp
        moreover have "(objs h)(p \<mapsto> po) = objs h" using po by (simp add: map_upd_triv)
        ultimately have "h' = h\<lparr>objs := (objs h)(x := None)\<rparr>" by simp
        with inv xt show ?thesis by (auto simp: unused_inv_def)
      next
        case pn: False
        from inv have "\<forall>x c. objs h x = Some c \<and> parent c \<noteq> None \<and>
            tally_or_val_ptr (val c) = Some lp \<longrightarrow> parent c = Some this"
          by (simp add: unused_inv_def)
        from this [rule_format, of p po] po pn
        have nlp: "tally_or_val_ptr (val po) \<noteq> Some lp" by auto
        from inv xt pn po False nlp show ?thesis unfolding h'
          by (auto simp: unused_inv_def)
      qed
    qed
  qed
qed

lemma unused_inv_step:
  assumes idr: "\<forall>x. comb x identity = x"
    and inv: "unused_inv identity this lp seed h"
    and q: "unused_op this opn h"
    and step: "host_apply comb identity opn h = Some h'"
  shows "unused_inv identity this lp seed h'"
proof (cases opn)
  case (Construct x nt v)
  with unused_inv_Construct [OF inv] q step show ?thesis by auto
next
  case (Copy env x other)
  with unused_inv_Copy [OF inv] q step show ?thesis by auto
next
  case (Combine x v)
  with unused_inv_Combine [OF inv] q step show ?thesis by auto
next
  case (Destroy x)
  with unused_inv_Destroy [of comb identity, OF idr inv] q step show ?thesis by auto
qed

lemma unused_inv_run:
  assumes idr: "\<forall>x. comb x identity = x"
  shows "unused_inv identity this lp seed h \<Longrightarrow> unused_run comb identity this ops h \<Longrightarrow>
     \<exists>h'. host_run comb identity ops h = Some h' \<and> unused_inv identity this lp seed h'"
proof (induction ops arbitrary: h)
  case Nil
  then show ?case by simp
next
  case (Cons opn ops)
  from Cons.prems(2) obtain h1 where q: "unused_op this opn h"
    and step: "host_apply comb identity opn h = Some h1"
    and rest: "unused_run comb identity this ops h1"
    by (auto split: option.splits)
  note inv1 = unused_inv_step [of comb identity, OF idr Cons.prems(1) q step]
  from Cons.IH [OF inv1 rest] step show ?case by simp
qed

lemma unused_inv_init:
  assumes "objs h0 this = None" and "tallies h0 new_tally = None"
    and "\<forall>x c. objs h0 x = Some c \<longrightarrow>
           parent c \<noteq> Some this \<and>
           (parent c \<noteq> None \<longrightarrow> tally_or_val_ptr (val c) \<noteq> Some new_tally)"
  shows "unused_inv identity this new_tally seed (Reduce_init this new_tally seed h0)"
  using assms by (auto simp: unused_inv_def Reduce_init_def Reduce_Data_init_def)

lemma unused_inv_read:
  assumes "unused_inv identity this lp seed h"
  shows "operator_T comb this h = Some (seed, h)"
proof -
  from assms obtain r where r: "objs h this = Some r" "tally_or_val_ptr (val r) = Some lp"
    "data_value (val r) = seed" and t: "tallies h lp = Some []"
    by (auto simp: unused_inv_def)
  from operator_T_empty_tally [OF r(1,2) t] r(3) show ?thesis by simp
qed

text \<open>
  C7, as amended: for every reducer whose combine has the identity as right identity
  and every seed, take a handle constructed with that seed in fresh storage, and any
  history after it whose operations succeed and in which the handle stays alive and
  unused: it is never used in a kernel launch (neither it nor a host copy of it is
  copied while a launch is being set up), no value is combined into it or into a host
  copy of it, and storage and parent pointers are respected. The history may copy the
  handle on the host, destroy such copies, and construct, combine into, launch and
  destroy other handles. Reading the handle afterwards, by \<open>get()\<close> or by the
  conversion, returns the seed and leaves the memory as it was: no stream is
  synchronized, no slot is folded.
\<close>

theorem read_unused_handle_returns_seed:
  assumes idr: "\<forall>x. comb x identity = x"
    and fresh: "objs h0 this = None" "tallies h0 new_tally = None"
    and nodangling: "\<forall>x c. objs h0 x = Some c \<longrightarrow>
           parent c \<noteq> Some this \<and>
           (parent c \<noteq> None \<longrightarrow> tally_or_val_ptr (val c) \<noteq> Some new_tally)"
    and unused: "unused_run comb identity this ops (Reduce_init this new_tally seed h0)"
  shows "\<exists>h. host_run comb identity ops (Reduce_init this new_tally seed h0) = Some h \<and>
     operator_T comb this h = Some (seed, h) \<and> get comb this h = Some (seed, h)"
proof -
  note i0 = unused_inv_init [OF fresh nodangling, of identity seed]
  from unused_inv_run [of comb identity, OF idr i0 unused] obtain h
    where run: "host_run comb identity ops (Reduce_init this new_tally seed h0) = Some h"
      and inv: "unused_inv identity this new_tally seed h" by blast
  from unused_inv_read [OF inv, of comb] run show ?thesis by (simp add: get_def)
qed

theorem read_unused_handle_returns_seed_witness:
  "(\<forall>x::int. x + 0 = x) \<and>
   objs (empty_host :: int host) 0 = None \<and>
   tallies (empty_host :: int host) 100 = None \<and>
   unused_run (+) 0 0
     [Copy (no_launch \<lparr>node_addr = 0, node_value = 0\<rparr>) 1 0,
      Construct 2 200 3,
      Combine 2 5,
      Copy \<lparr>setupReducers = True, currentGridDim = (1, 1, 1), currentStream = 4,
            device_malloc = 20, zeroed_malloc = 30,
            pinned_malloc = \<lparr>node_addr = 11, node_value = 0\<rparr>\<rparr> 3 2,
      Destroy 3,
      Copy (no_launch \<lparr>node_addr = 0, node_value = 0\<rparr>) 4 1,
      Destroy 4,
      Destroy 1]
     (Reduce_init 0 100 (7::int) empty_host) \<and>
   (\<exists>h. host_run (+) 0
     [Copy (no_launch \<lparr>node_addr = 0, node_value = 0\<rparr>) 1 0,
      Construct 2 200 3,
      Combine 2 5,
      Copy \<lparr>setupReducers = True, currentGridDim = (1, 1, 1), currentStream = 4,
            device_malloc = 20, zeroed_malloc = 30,
            pinned_malloc = \<lparr>node_addr = 11, node_value = 0\<rparr>\<rparr> 3 2,
      Destroy 3,
      Copy (no_launch \<lparr>node_addr = 0, node_value = 0\<rparr>) 4 1,
      Destroy 4,
      Destroy 1]
     (Reduce_init 0 100 (7::int) empty_host) = Some h \<and>
     operator_T (+) 0 h = Some (7, h) \<and> get (+) 0 h = Some (7, h))"
proof -
  let ?ops = "[Copy (no_launch \<lparr>node_addr = 0, node_value = 0\<rparr>) 1 0,
      Construct 2 200 3,
      Combine 2 5,
      Copy \<lparr>setupReducers = True, currentGridDim = (1, 1, 1), currentStream = 4,
            device_malloc = 20, zeroed_malloc = 30,
            pinned_malloc = \<lparr>node_addr = 11, node_value = 0\<rparr>\<rparr> 3 2,
      Destroy 3,
      Copy (no_launch \<lparr>node_addr = 0, node_value = 0\<rparr>) 4 1,
      Destroy 4,
      Destroy 1] :: int host_op list"
  have idr: "\<forall>x::int. x + 0 = x" by simp
  have f1: "objs (empty_host :: int host) 0 = None" by (simp add: empty_host_def)
  have f2: "tallies (empty_host :: int host) 100 = None" by (simp add: empty_host_def)
  have f3: "\<forall>x c. objs (empty_host :: int host) x = Some c \<longrightarrow>
      parent c \<noteq> Some 0 \<and> (parent c \<noteq> None \<longrightarrow> tally_or_val_ptr (val c) \<noteq> Some 100)"
    by (simp add: empty_host_def)
  have u: "unused_run (+) 0 0 ?ops (Reduce_init 0 100 (7::int) empty_host)"
    by (simp add: Reduce_init_def empty_host_def Reduce_copy_host_def setupForDevice_host_def
      no_launch_def Reduce_Data_copy_def Reduce_Data_init_def Reduce_reduce_def
      Reduce_dtor_host_def in_family_def valid_parent_def new_value_def add_to_stream.simps)
  note concl = read_unused_handle_returns_seed [of "(+)" "0::int" empty_host 0 100 ?ops 7,
      OF idr f1 f2 f3 u]
  show ?thesis by (intro conjI idr f1 f2 u concl)
qed

text \<open>
  C7 as stated fails for a handle used on the host only: constructed with 7 and never
  used in a launch (its tally stays empty), it reads 12 after 5 was combined into it,
  directly or through a host copy that was destroyed.
\<close>

theorem read_host_combined_handle_counterexample:
  "Option.bind (host_run (+) 0 [Construct 0 100 7, Combine 0 5] empty_host)
     (\<lambda>h. operator_T (+) 0 h) =
   Option.bind (host_run (+) 0 [Construct 0 100 7, Combine 0 5] empty_host)
     (\<lambda>h. Some (12::int, h)) \<and>
   Option.bind (host_run (+) 0 [Construct 0 100 7, Combine 0 5] empty_host)
     (\<lambda>h. map_option fst (get (+) 0 h)) = Some (12::int) \<and>
   Option.bind (host_run (+) 0 [Construct 0 100 (7::int), Combine 0 5] empty_host)
     (\<lambda>h. tallies h 100) = Some [] \<and>
   Option.bind
     (host_run (+) 0 [Construct 0 100 7,
        Copy (no_launch \<lparr>node_addr = 0, node_value = 0\<rparr>) 1 0, Combine 1 5, Destroy 1]
        empty_host)
     (\<lambda>h. map_option fst (get (+) 0 h)) = Some (12::int)"
  by (simp add: Reduce_init_def empty_host_def Reduce_copy_host_def setupForDevice_host_def
      no_launch_def Reduce_Data_copy_def Reduce_Data_init_def Reduce_reduce_def
      Reduce_dtor_host_def get_def operator_T_def iter_eq_begin_end)

lemma operator_T_first:
  assumes r: "objs h this = Some r" and lp: "tally_or_val_ptr (val r) = Some lp"
    and t: "tallies h lp = Some t" and inv: "tally_inv t"
  shows "operator_T comb this h =
     Some (fold (\<lambda>nd v. comb v (node_value nd)) (concat (map node_list t)) (data_value (val r)),
       if t = [] then h
       else h\<lparr>objs := (objs h)(this \<mapsto> r\<lparr>val := (val r)\<lparr>data_value :=
                 fold (\<lambda>nd v. comb v (node_value nd)) (concat (map node_list t)) (data_value (val r))\<rparr>\<rparr>),
              tallies := (tallies h)(lp \<mapsto> []),
              synced := synced h @ map stream t,
              pinned_freed := snd (free_list t (pinned_freed h))\<rparr>)"
proof (cases "t = []")
  case True
  with r lp t show ?thesis by (simp add: operator_T_empty_tally)
next
  case False
  from inv have ne: "\<forall>sn \<in> set t. node_list sn \<noteq> []" by (simp add: tally_inv_def)
  with False have "\<not> iter_eq (tally_begin t) tally_end"
    by (cases t) (auto simp: iter_eq_begin_end)
  with r lp t False show ?thesis
    by (simp add: operator_T_def for_each_value_begin [OF ne] free_list_empty deviceToHost_eq)
qed

lemma reads_fixed:
  "operator_T comb this h = Some (v, h) \<Longrightarrow> reads comb this k h = Some (replicate k v, h)"
  by (induction k) auto

text \<open>
  C6: the first read of a handle synchronizes the streams of its tally, folds every slot
  into the handle's value and empties the tally; any number of reads after it return the
  value of the first read and leave the memory as the first read left it, so they
  synchronize no stream and fold nothing.
\<close>

theorem read_idempotent:
  assumes "objs h this = Some r" and "tally_or_val_ptr (val r) = Some lp"
    and "tallies h lp = Some t" and "tally_inv t"
  shows "\<exists>v h1. operator_T comb this h = Some (v, h1) \<and>
     v = fold (\<lambda>nd v. comb v (node_value nd)) (concat (map node_list t)) (data_value (val r)) \<and>
     synced h1 = synced h @ map stream t \<and>
     tallies h1 lp = Some [] \<and>
     reads comb this k h1 = Some (replicate k v, h1)"
proof -
  let ?v = "fold (\<lambda>nd v. comb v (node_value nd)) (concat (map node_list t)) (data_value (val r))"
  obtain h1 where first: "operator_T comb this h = Some (?v, h1)"
    and h1: "h1 = (if t = [] then h
       else h\<lparr>objs := (objs h)(this \<mapsto> r\<lparr>val := (val r)\<lparr>data_value := ?v\<rparr>\<rparr>),
              tallies := (tallies h)(lp \<mapsto> []),
              synced := synced h @ map stream t,
              pinned_freed := snd (free_list t (pinned_freed h))\<rparr>)"
    using operator_T_first [OF assms] by simp
  have sy: "synced h1 = synced h @ map stream t" and ta: "tallies h1 lp = Some []"
    using h1 assms(3) by auto
  have "\<exists>r1. objs h1 this = Some r1 \<and> tally_or_val_ptr (val r1) = Some lp \<and> data_value (val r1) = ?v"
    using h1 assms(1,2,3) by (cases "t = []") auto
  then obtain r1 where r1: "objs h1 this = Some r1" "tally_or_val_ptr (val r1) = Some lp"
    "data_value (val r1) = ?v" by blast
  have "operator_T comb this h1 = Some (?v, h1)"
    using operator_T_empty_tally [OF r1(1,2) ta] r1(3) by simp
  from reads_fixed [OF this] first sy ta show ?thesis by blast
qed

theorem read_idempotent_witness:
  "objs ((Reduce_init 0 100 (7::int) empty_host)
       \<lparr>tallies := [100 \<mapsto> [\<lparr>stream = 2, node_list = [\<lparr>node_addr = 11, node_value = 5\<rparr>]\<rparr>]]\<rparr>) 0
     = Some \<lparr>parent = Some 0, val = Reduce_Data_init 7 100\<rparr> \<and>
   tally_inv [\<lparr>stream = 2, node_list = [\<lparr>node_addr = 11, node_value = (5::int)\<rparr>]\<rparr>] \<and>
   (\<exists>v h1. operator_T (+) 0 ((Reduce_init 0 100 (7::int) empty_host)
       \<lparr>tallies := [100 \<mapsto> [\<lparr>stream = 2, node_list = [\<lparr>node_addr = 11, node_value = 5\<rparr>]\<rparr>]]\<rparr>)
       = Some (v, h1) \<and> v = 12 \<and> synced h1 = [2] \<and> tallies h1 100 = Some [] \<and>
       reads (+) 0 3 h1 = Some ([12, 12, 12], h1))"
  using read_idempotent [of
      "(Reduce_init 0 100 (7::int) empty_host)
       \<lparr>tallies := [100 \<mapsto> [\<lparr>stream = 2, node_list = [\<lparr>node_addr = 11, node_value = 5\<rparr>]\<rparr>]]\<rparr>"
      0 "\<lparr>parent = Some 0, val = Reduce_Data_init 7 100\<rparr>" 100
      "[\<lparr>stream = 2, node_list = [\<lparr>node_addr = 11, node_value = 5\<rparr>]\<rparr>]" "(+)" 3]
  by (simp add: Reduce_init_def Reduce_Data_init_def empty_host_def tally_inv_def
      numeral_3_eq_3)

lemma Reduce_copy_host_no_setup:
  assumes ob: "objs h other = Some ob" and p: "parent ob = Some p"
    and copy: "Reduce_copy_host identity env this other h = Some h1"
    and c: "objs h1 this = Some c" and pc: "parent c \<noteq> None"
  shows "h1 = h\<lparr>objs := (objs h)(this \<mapsto>
           \<lparr>parent = Some p, val = Reduce_Data_copy identity (val ob)\<rparr>)\<rparr>"
  using assms
  by (auto simp: Reduce_copy_host_def setupForDevice_host_def
      split: option.splits if_splits prod.splits)

lemma Reduce_dtor_host_copy:
  assumes c: "objs h1 this = Some c" and p: "parent c = Some p" and ne: "p \<noteq> this"
    and po: "objs h1 p = Some po"
  shows "Reduce_dtor_host comb this h1 =
     Some (h1\<lparr>objs := ((objs h1)(p \<mapsto>
        po\<lparr>val := (val po)\<lparr>data_value := comb (data_value (val po)) (data_value (val c))\<rparr>\<rparr>))
        (this := None)\<rparr>)"
  using assms by (simp add: Reduce_dtor_host_def Reduce_reduce_def)

text \<open>
  C10, as amended: the data of every copy starts with the reducer's identity as its
  value and with \<open>own_device_ptr\<close> false. Destroying a copy on the host whose parent
  pointer is non-null and points to a live object other than itself folds the copy's
  value into the parent: the parent's value becomes the combination of its value
  with the copy's, nothing else changes and the copy is gone. So, if combining with
  the identity on the right changes nothing, a copy whose value is still the identity
  leaves the parent's value unchanged; this is the case of a copy destroyed right
  after it was made on the host in fresh storage with the parent pointer left
  non-null, whose destruction gives back the memory as it was before the copy.
\<close>

theorem destroy_host_copy_folds_accumulator:
  assumes c: "objs h1 this = Some c" and p: "parent c = Some p" and ne: "p \<noteq> this"
    and po: "objs h1 p = Some po"
  shows "data_value (Reduce_Data_copy identity d) = identity \<and>
     \<not> own_device_ptr (Reduce_Data_copy identity d) \<and>
     Reduce_dtor_host comb this h1 =
       Some (h1\<lparr>objs := ((objs h1)(p \<mapsto>
          po\<lparr>val := (val po)\<lparr>data_value :=
            comb (data_value (val po)) (data_value (val c))\<rparr>\<rparr>))(this := None)\<rparr>) \<and>
     Option.bind (Reduce_dtor_host comb this h1) (value_of p)
       = Some (comb (data_value (val po)) (data_value (val c))) \<and>
     ((\<forall>x. comb x identity = x) \<and> data_value (val c) = identity \<longrightarrow>
        Reduce_dtor_host comb this h1 = Some (h1\<lparr>objs := (objs h1)(this := None)\<rparr>) \<and>
        Option.bind (Reduce_dtor_host comb this h1) (value_of p) = value_of p h1) \<and>
     (\<forall>h env other.
        (\<forall>x. comb x identity = x) \<and> objs h this = None \<and>
        Reduce_copy_host identity env this other h = Some h1 \<longrightarrow>
        data_value (val c) = identity \<and> \<not> own_device_ptr (val c) \<and>
        Reduce_dtor_host comb this h1 = Some h \<and> value_of p h = Some (data_value (val po)))"
proof -
  note dt = Reduce_dtor_host_copy [OF c p ne po, of comb]
  have A: "data_value (Reduce_Data_copy identity d) = identity \<and>
     \<not> own_device_ptr (Reduce_Data_copy identity d)"
    by (simp add: Reduce_Data_copy_def)
  have B: "Option.bind (Reduce_dtor_host comb this h1) (value_of p)
       = Some (comb (data_value (val po)) (data_value (val c)))"
    using ne by (simp add: dt value_of_def)
  have C: "Reduce_dtor_host comb this h1 = Some (h1\<lparr>objs := (objs h1)(this := None)\<rparr>) \<and>
        Option.bind (Reduce_dtor_host comb this h1) (value_of p) = value_of p h1"
    if idr: "\<forall>x. comb x identity = x" and v: "data_value (val c) = identity"
  proof -
    have "po\<lparr>val := (val po)\<lparr>data_value := comb (data_value (val po)) (data_value (val c))\<rparr>\<rparr>
        = po" using idr v by simp
    moreover have "(objs h1)(p \<mapsto> po) = objs h1" using po by (simp add: map_upd_triv)
    ultimately have "Reduce_dtor_host comb this h1 = Some (h1\<lparr>objs := (objs h1)(this := None)\<rparr>)"
      by (simp add: dt)
    then show ?thesis using ne po by (simp add: value_of_def)
  qed
  have D: "data_value (val c) = identity \<and> \<not> own_device_ptr (val c) \<and>
        Reduce_dtor_host comb this h1 = Some h \<and> value_of p h = Some (data_value (val po))"
    if idr: "\<forall>x. comb x identity = x" and fresh: "objs h this = None"
      and copy: "Reduce_copy_host identity env this other h = Some h1" for h env other
  proof -
    from copy obtain ob where ob: "objs h other = Some ob"
      by (auto simp: Reduce_copy_host_def split: option.splits)
    from copy ob c p have pob: "parent ob = Some p"
      by (auto simp: Reduce_copy_host_def setupForDevice_host_def
          split: option.splits if_splits prod.splits)
    from p have pc: "parent c \<noteq> None" by simp
    note h1 = Reduce_copy_host_no_setup [OF ob pob copy c pc]
    from h1 c have c_eq: "c = \<lparr>parent = Some p, val = Reduce_Data_copy identity (val ob)\<rparr>"
      by simp
    then have v: "data_value (val c) = identity" and o: "\<not> own_device_ptr (val c)"
      by (simp_all add: Reduce_Data_copy_def)
    from h1 ne po have poh: "objs h p = Some po" by (cases h) auto
    have "(objs h1)(this := None) = objs h"
      using fresh by (subst h1) (auto simp: fun_eq_iff)
    moreover have "h1\<lparr>objs := objs h\<rparr> = h" by (subst h1) simp
    ultimately have "h1\<lparr>objs := (objs h1)(this := None)\<rparr> = h" by simp
    with C [OF idr v] have "Reduce_dtor_host comb this h1 = Some h" by simp
    with v o poh show ?thesis by (simp add: value_of_def)
  qed
  from A dt B C D show ?thesis by blast
qed

theorem destroy_host_copy_folds_accumulator_witness:
  "objs ((Reduce_init 0 100 (7::int) empty_host)\<lparr>objs := (objs (Reduce_init 0 100 7 empty_host))
         (1 \<mapsto> \<lparr>parent = Some 0, val = Reduce_Data_copy 0 (Reduce_Data_init 7 100)\<rparr>)\<rparr>) 1
     = Some \<lparr>parent = Some 0, val = Reduce_Data_copy 0 (Reduce_Data_init 7 100)\<rparr> \<and>
   objs ((Reduce_init 0 100 (7::int) empty_host)\<lparr>objs := (objs (Reduce_init 0 100 7 empty_host))
         (1 \<mapsto> \<lparr>parent = Some 0, val = Reduce_Data_copy 0 (Reduce_Data_init 7 100)\<rparr>)\<rparr>) 0
     = Some \<lparr>parent = Some 0, val = Reduce_Data_init 7 100\<rparr> \<and>
   (\<forall>x::int. x + 0 = x) \<and>
   data_value (Reduce_Data_copy (0::int) (Reduce_Data_init 7 100)) = 0 \<and>
   objs (Reduce_init 0 100 (7::int) empty_host) 1 = None \<and>
   Reduce_copy_host 0 (no_launch \<lparr>node_addr = 0, node_value = 0\<rparr>) 1 0
       (Reduce_init 0 100 (7::int) empty_host)
     = Some ((Reduce_init 0 100 7 empty_host)\<lparr>objs := (objs (Reduce_init 0 100 7 empty_host))
         (1 \<mapsto> \<lparr>parent = Some 0, val = Reduce_Data_copy 0 (Reduce_Data_init 7 100)\<rparr>)\<rparr>) \<and>
   Reduce_dtor_host (+) 1 ((Reduce_init 0 100 (7::int) empty_host)\<lparr>objs := (objs (Reduce_init 0 100 7 empty_host))
         (1 \<mapsto> \<lparr>parent = Some 0, val = Reduce_Data_copy 0 (Reduce_Data_init 7 100)\<rparr>)\<rparr>)
     = Some (Reduce_init 0 100 7 empty_host) \<and>
   Option.bind (Reduce_dtor_host (+) 1 ((Reduce_init 0 100 (7::int) empty_host)\<lparr>objs := (objs (Reduce_init 0 100 7 empty_host))
         (1 \<mapsto> \<lparr>parent = Some 0, val = Reduce_Data_copy 0 (Reduce_Data_init 7 100)\<rparr>)\<rparr>))
       (value_of 0) = Some 7 \<and>
   value_of 0 (Reduce_init 0 100 (7::int) empty_host) = Some 7"
proof -
  let ?h = "Reduce_init 0 100 (7::int) empty_host"
  let ?c = "\<lparr>parent = Some 0, val = Reduce_Data_copy 0 (Reduce_Data_init (7::int) 100)\<rparr>"
  let ?po = "\<lparr>parent = Some 0, val = Reduce_Data_init (7::int) 100\<rparr>"
  let ?h1 = "?h\<lparr>objs := (objs ?h)(1 \<mapsto> ?c)\<rparr>"
  let ?env = "no_launch \<lparr>node_addr = 0, node_value = (0::int)\<rparr>"
  have c: "objs ?h1 1 = Some ?c" by simp
  have p: "parent ?c = Some 0" by simp
  have ne: "(0::nat) \<noteq> 1" by simp
  have po: "objs ?h1 0 = Some ?po" by (simp add: Reduce_init_def)
  have idr: "\<forall>x::int. x + 0 = x" by simp
  have v: "data_value (val ?c) = 0" by (simp add: Reduce_Data_copy_def)
  have v': "data_value (Reduce_Data_copy (0::int) (Reduce_Data_init 7 100)) = 0"
    by (simp add: Reduce_Data_copy_def)
  have fresh: "objs ?h 1 = None" by (simp add: Reduce_init_def empty_host_def)
  have copy: "Reduce_copy_host 0 ?env 1 0 ?h = Some ?h1"
    by (simp add: Reduce_init_def empty_host_def Reduce_copy_host_def setupForDevice_host_def
      no_launch_def)
  note t = destroy_host_copy_folds_accumulator [OF c p ne po, of 0 "Reduce_Data_init 7 100" "(+)"]
  note t4 = t [THEN conjunct2, THEN conjunct2, THEN conjunct2]
  from t4 [THEN conjunct1]
  have fold: "Option.bind (Reduce_dtor_host (+) 1 ?h1) (value_of 0) = Some 7"
    by (simp add: Reduce_Data_init_def Reduce_Data_copy_def)
  from t4 [THEN conjunct2, THEN conjunct2, rule_format, of "?h" "?env" 0] idr fresh copy
  have restore: "Reduce_dtor_host (+) 1 ?h1 = Some ?h" and pv: "value_of 0 ?h = Some 7"
    by (simp_all add: Reduce_Data_init_def)
  show ?thesis by (intro conjI c po idr v' fresh copy restore fold pv)
qed

text \<open>
  C10 as stated fails for a copy into which a value was combined: the root holds 7, a
  copy made while no launch is pending (its parent pointer stays non-null) takes 5,
  and its destruction leaves 12 in the root.
\<close>

theorem destroy_combined_host_copy_counterexample:
  "Option.bind
     (host_run (+) 0 [Construct 0 100 7, Copy (no_launch \<lparr>node_addr = 0, node_value = 0\<rparr>) 1 0, Combine 1 5, Destroy 1] empty_host)
     (value_of 0) = Some (12::int) \<and>
   Option.bind
     (host_run (+) 0 [Construct 0 100 7, Copy (no_launch \<lparr>node_addr = 0, node_value = 0\<rparr>) 1 0] empty_host)
     (value_of 0) = Some (7::int) \<and>
   (Option.bind
     (host_run (+) 0 [Construct 0 100 (7::int), Copy (no_launch \<lparr>node_addr = 0, node_value = 0\<rparr>) 1 0, Combine 1 5] empty_host)
     (parent_of 1)) = Some (Some 0)"
  by (simp add: Reduce_init_def empty_host_def Reduce_copy_host_def setupForDevice_host_def
      no_launch_def Reduce_Data_copy_def Reduce_Data_init_def Reduce_reduce_def
      Reduce_dtor_host_def value_of_def parent_of_def)
section \<open>Properties of a launch seen from the host\<close>






end
